theory Spec2Isabelle
  imports Main
begin

section \<open>Degree of success of a check (check-degree-of-success.ts)\<close>

subsection \<open>Runtime values\<close>

text \<open>
  A JavaScript number, as far as this code is concerned: the code does no arithmetic on
  die values, it only passes them on, so a number is either \<open>NaN\<close> or a value.
\<close>

datatype number = NaN | Num int

text \<open>
  The value found in \<open>roll.terms[0].total\<close>. Its type is declared outside the two source
  files, so it is taken as an arbitrary runtime value.
\<close>

datatype js_value =
    JSUndefined
  | JSNull
  | JSBoolean bool
  | JSNumber number
  | JSString string

text \<open>
  \<open>Number(v)\<close> called as a function (ECMAScript ToNumber). The conversion of a string is the
  language's StringToNumber, taken as a parameter.
\<close>

fun Number :: "(string \<Rightarrow> number) \<Rightarrow> js_value \<Rightarrow> js_value" where
  "Number StringToNumber JSUndefined = JSNumber NaN"
| "Number StringToNumber JSNull = JSNumber (Num 0)"
| "Number StringToNumber (JSBoolean b) = JSNumber (Num (if b then 1 else 0))"
| "Number StringToNumber (JSNumber n) = JSNumber n"
| "Number StringToNumber (JSString s) = JSNumber (StringToNumber s)"

text \<open>The operator \<open>a ?? b\<close>: \<open>b\<close> when \<open>a\<close> is \<open>null\<close> or \<open>undefined\<close>, else \<open>a\<close>.\<close>

definition nullish_coalesce :: "js_value \<Rightarrow> js_value \<Rightarrow> js_value" where
  "nullish_coalesce a b = (if a = JSUndefined \<or> a = JSNull then b else a)"

subsection \<open>Enumerations imported from ../degree-of-success\<close>

text \<open>
  Modelled from the spec: the enumeration \<open>DegreeOfSuccess\<close> is declared in
  \<open>../degree-of-success\<close>, which is not among the source files. The spec gives it as the
  consecutive integers 0..3, ordered critical failure, failure, success, critical success.
\<close>

type_synonym DegreeOfSuccess = int

definition CRITICAL_FAILURE :: DegreeOfSuccess where "CRITICAL_FAILURE = 0"
definition FAILURE :: DegreeOfSuccess where "FAILURE = 1"
definition SUCCESS :: DegreeOfSuccess where "SUCCESS = 2"
definition CRITICAL_SUCCESS :: DegreeOfSuccess where "CRITICAL_SUCCESS = 3"

text \<open>
  Modelled from the spec: the constants of \<open>DegreeAdjustment\<close>, declared in
  \<open>../degree-of-success\<close> too, are the signed step counts -2, -1, +1, +2.
\<close>

type_synonym DegreeAdjustmentValues = int

definition LOWER_BY_TWO :: DegreeAdjustmentValues where "LOWER_BY_TWO = - 2"
definition LOWER :: DegreeAdjustmentValues where "LOWER = - 1"
definition INCREASE :: DegreeAdjustmentValues where "INCREASE = 1"
definition INCREASE_BY_TWO :: DegreeAdjustmentValues where "INCREASE_BY_TWO = 2"

text \<open>
  Modelled from the spec: \<open>adjustDegreeOfSuccess\<close> (in \<open>../degree-of-success\<close>) shifts a degree
  by the step count of the adjustment, saturating at the bounds of the enumeration.
\<close>

definition adjustDegreeOfSuccess :: "DegreeAdjustmentValues \<Rightarrow> DegreeOfSuccess \<Rightarrow> DegreeOfSuccess" where
  "adjustDegreeOfSuccess adjustment degreeOfSuccess =
     max CRITICAL_FAILURE (min CRITICAL_SUCCESS (degreeOfSuccess + adjustment))"

subsection \<open>The data of a check\<close>

text \<open>The five keys of \<open>CheckDCModifiers\<close>, which are also the keys of \<open>PREFIXES\<close>.\<close>

datatype selector = All | CriticalFailure | Failure | Success | CriticalSuccess

text \<open>
  \<open>CheckDCModifiers\<close>: every key is optional. The values are typed \<open>CheckDCStrings\<close> in the
  source; at run time they are strings read from data, so they are strings here.
\<close>

type_synonym CheckDCModifiers = "selector \<rightharpoonup> string"

text \<open>\<open>CheckDC\<close>, with the two fields \<open>getDegreeOfSuccess\<close> reads.\<close>

record CheckDC =
  modifiers :: "CheckDCModifiers option"
  dc_value :: number

record DieRoll =
  dieValue :: js_value
  modifier :: js_value

record RollTerm =
  total :: js_value

record RollDataPF2e =
  totalModifier :: js_value

record Roll =
  terms :: "RollTerm list"
  data :: RollDataPF2e

text \<open>
  What a lookup \<open>ADJUSTMENTS[checkDC]\<close> can give when it is not \<open>undefined\<close>: one of the four
  numbers of the table, or a member the object literal inherits from \<open>Object.prototype\<close> (a
  function, or the prototype itself), kept by the key it was read under.
\<close>

datatype table_value = Entry DegreeAdjustmentValues | Inherited string

text \<open>The object \<open>getDegreeOfSuccess\<close> returns (its field \<open>value\<close> is \<open>degree_value\<close> here).\<close>

record Outcome =
  unadjusted :: DegreeOfSuccess
  degree_value :: DegreeOfSuccess
  degreeAdjustment :: "table_value option"

datatype error = TypeError | ErrorPF2e string

subsection \<open>The two tables\<close>

fun PREFIXES :: "selector \<Rightarrow> int" where
  "PREFIXES All = - 1"
| "PREFIXES CriticalFailure = CRITICAL_FAILURE"
| "PREFIXES Failure = FAILURE"
| "PREFIXES Success = SUCCESS"
| "PREFIXES CriticalSuccess = CRITICAL_SUCCESS"

text \<open>
  The property names every object literal inherits from \<open>Object.prototype\<close> (ECMAScript,
  with the accessor and the four methods of its Annex B). \<open>Object.freeze\<close> does not remove
  them.
\<close>

definition Object_prototype_keys :: "string list" where
  "Object_prototype_keys =
     [''constructor'', ''hasOwnProperty'', ''isPrototypeOf'', ''propertyIsEnumerable'',
      ''toLocaleString'', ''toString'', ''valueOf'', ''__proto__'',
      ''__defineGetter__'', ''__defineSetter__'', ''__lookupGetter__'', ''__lookupSetter__'']"

text \<open>
  \<open>ADJUSTMENTS[checkDC]\<close>: the number of one of the four keys of the table, the inherited
  member when the string is a property name of \<open>Object.prototype\<close>, and \<open>undefined\<close> (\<open>None\<close>) for
  every other string.
\<close>

definition ADJUSTMENTS :: "string \<Rightarrow> table_value option" where
  "ADJUSTMENTS checkDC =
     (if checkDC = ''two-degrees-better'' then Some (Entry INCREASE_BY_TWO)
      else if checkDC = ''one-degree-better'' then Some (Entry INCREASE)
      else if checkDC = ''one-degree-worse'' then Some (Entry LOWER)
      else if checkDC = ''two-degrees-worse'' then Some (Entry LOWER_BY_TWO)
      else if checkDC \<in> set Object_prototype_keys then Some (Inherited checkDC)
      else None)"

subsection \<open>getDegreeAdjustment\<close>

text \<open>
  The \<open>for\<close> loop over the keys, as a recursion over the keys still to visit. \<open>None\<close> is
  \<open>undefined\<close>: the function returns it after the last key, and also when it returns the
  adjustment of a string that \<open>ADJUSTMENTS\<close> has nothing for. An inherited member is no number,
  so the guard lets it pass and the function returns it. An empty string is falsy, so
  \<open>!checkDC\<close> skips it like a missing key.
\<close>

fun getDegreeAdjustment_loop ::
  "selector list \<Rightarrow> DegreeOfSuccess \<Rightarrow> CheckDCModifiers \<Rightarrow> table_value option" where
  "getDegreeAdjustment_loop [] v ms = None"
| "getDegreeAdjustment_loop (degree # rest) v ms =
     (case ms degree of
        None \<Rightarrow> getDegreeAdjustment_loop rest v ms
      | Some checkDC \<Rightarrow>
          if checkDC = [] then getDegreeAdjustment_loop rest v ms
          else
            let condition = PREFIXES degree;
                adjustment = ADJUSTMENTS checkDC
            in
              if \<not> (v = CRITICAL_SUCCESS \<and> adjustment = Some (Entry INCREASE)) \<and>
                 \<not> (v = CRITICAL_FAILURE \<and> adjustment = Some (Entry LOWER))
              then
                if condition = PREFIXES All then adjustment
                else if v = condition then adjustment
                else getDegreeAdjustment_loop rest v ms
              else getDegreeAdjustment_loop rest v ms)"

definition priority_order :: "selector list" where
  "priority_order = [All, CriticalFailure, Failure, Success, CriticalSuccess]"

definition getDegreeAdjustment ::
  "DegreeOfSuccess \<Rightarrow> CheckDCModifiers \<Rightarrow> table_value option" where
  "getDegreeAdjustment v ms = getDegreeAdjustment_loop priority_order v ms"

subsection \<open>getDegreeOfSuccess\<close>

text \<open>
  \<open>calculateDegreeOfSuccess\<close> is imported from \<open>../degree-of-success\<close> and is a parameter
  here. \<open>roll.terms[0]\<close> of an empty array is \<open>undefined\<close>, and reading \<open>.total\<close> of it throws
  a TypeError. \<open>checkDC.modifiers ?? {}\<close> is the empty map when the field is missing.

  The call \<open>adjustDegreeOfSuccess(degreeAdjustment, value)\<close>: on a number of the table it is
  the function as the spec gives it. What that function, which is not among the source files,
  returns for an inherited member is the parameter \<open>adjustInherited\<close>.
\<close>

fun call_adjustDegreeOfSuccess ::
  "(string \<Rightarrow> DegreeOfSuccess \<Rightarrow> DegreeOfSuccess) \<Rightarrow> table_value \<Rightarrow> DegreeOfSuccess \<Rightarrow> DegreeOfSuccess" where
  "call_adjustDegreeOfSuccess adjustInherited (Entry a) u = adjustDegreeOfSuccess a u"
| "call_adjustDegreeOfSuccess adjustInherited (Inherited m) u = adjustInherited m u"

definition makeDieRoll :: "(string \<Rightarrow> number) \<Rightarrow> RollTerm \<Rightarrow> RollDataPF2e \<Rightarrow> DieRoll" where
  "makeDieRoll StringToNumber term0 d =
     \<lparr> dieValue = nullish_coalesce (Number StringToNumber (total term0)) (JSNumber (Num 0)),
       modifier = nullish_coalesce (totalModifier d) (JSNumber (Num 0)) \<rparr>"

definition getDegreeOfSuccess ::
  "(string \<Rightarrow> number) \<Rightarrow> (DieRoll \<Rightarrow> number \<Rightarrow> DegreeOfSuccess)
     \<Rightarrow> (string \<Rightarrow> DegreeOfSuccess \<Rightarrow> DegreeOfSuccess) \<Rightarrow> Roll \<Rightarrow> CheckDC
     \<Rightarrow> error + Outcome" where
  "getDegreeOfSuccess StringToNumber calculateDegreeOfSuccess adjustInherited roll checkDC =
     (case terms roll of
        [] \<Rightarrow> Inl TypeError
      | term0 # _ \<Rightarrow>
          let dieRoll = makeDieRoll StringToNumber term0 (data roll);
              u = calculateDegreeOfSuccess dieRoll (dc_value checkDC);
              adj = getDegreeAdjustment u (case modifiers checkDC of None \<Rightarrow> Map.empty | Some ms \<Rightarrow> ms)
          in Inr \<lparr> unadjusted = u,
                   degree_value =
                     (case adj of None \<Rightarrow> u
                      | Some a \<Rightarrow> call_adjustDegreeOfSuccess adjustInherited a u),
                   degreeAdjustment = adj \<rparr>)"

subsection \<open>The selection rule in the words of the specification\<close>

text \<open>
  The definitions of this subsection follow the specification, not the code: a key is
  present when the map has a (non-empty) string for it, a candidate is skipped by the
  boundary guard when it is the single-step adjustment that cannot move the degree, a key
  matches when it is \<open>all\<close> or stands for the unadjusted degree, and the candidate selected
  is the first one in the priority order that is present, not skipped and matches.
\<close>

definition present :: "CheckDCModifiers \<Rightarrow> selector \<Rightarrow> bool" where
  "present ms k = (case ms k of None \<Rightarrow> False | Some s \<Rightarrow> s \<noteq> [])"

definition adjustment_of :: "CheckDCModifiers \<Rightarrow> selector \<Rightarrow> table_value option" where
  "adjustment_of ms k = (case ms k of None \<Rightarrow> None | Some s \<Rightarrow> ADJUSTMENTS s)"

definition skipped_by_guard :: "DegreeOfSuccess \<Rightarrow> table_value option \<Rightarrow> bool" where
  "skipped_by_guard v adj =
     ((v = CRITICAL_SUCCESS \<and> adj = Some (Entry INCREASE)) \<or>
      (v = CRITICAL_FAILURE \<and> adj = Some (Entry LOWER)))"

definition matches :: "selector \<Rightarrow> DegreeOfSuccess \<Rightarrow> bool" where
  "matches k v = (k = All \<or> PREFIXES k = v)"

definition candidate :: "DegreeOfSuccess \<Rightarrow> CheckDCModifiers \<Rightarrow> selector \<Rightarrow> bool" where
  "candidate v ms k = (present ms k \<and> \<not> skipped_by_guard v (adjustment_of ms k) \<and> matches k v)"

definition first_candidate :: "DegreeOfSuccess \<Rightarrow> CheckDCModifiers \<Rightarrow> selector option" where
  "first_candidate v ms = find (candidate v ms) priority_order"

text \<open>The map \<open>checkDC.modifiers ?? {}\<close> that \<open>getDegreeOfSuccess\<close> hands to the selection.\<close>

definition modifiers_or_empty :: "CheckDC \<Rightarrow> CheckDCModifiers" where
  "modifiers_or_empty checkDC = (case modifiers checkDC of None \<Rightarrow> Map.empty | Some ms \<Rightarrow> ms)"

text \<open>Inputs used to run the definitions on concrete checks.\<close>

definition no_strings :: "string \<Rightarrow> number" where
  "no_strings s = NaN"

definition roll_of_total :: "js_value \<Rightarrow> Roll" where
  "roll_of_total v = \<lparr> terms = [\<lparr> total = v \<rparr>], data = \<lparr> totalModifier = JSUndefined \<rparr> \<rparr>"

text \<open>
  A string is recognized when it is one of the four keys of \<open>ADJUSTMENTS\<close>; a map contains an
  unrecognized string when the value of one of its five keys is none of them.
\<close>

definition recognized :: "string \<Rightarrow> bool" where
  "recognized s =
     (s = ''two-degrees-better'' \<or> s = ''one-degree-better'' \<or>
      s = ''one-degree-worse'' \<or> s = ''two-degrees-worse'')"

definition unrecognized_in :: "CheckDCModifiers \<Rightarrow> bool" where
  "unrecognized_in ms =
     list_ex (\<lambda>k. case ms k of None \<Rightarrow> False | Some s \<Rightarrow> \<not> recognized s) priority_order"

text \<open>A stand-in for what \<open>adjustDegreeOfSuccess\<close> returns for an inherited member.\<close>

definition keep_degree :: "string \<Rightarrow> DegreeOfSuccess \<Rightarrow> DegreeOfSuccess" where
  "keep_degree m u = u"

text \<open>A stand-in for \<open>calculateDegreeOfSuccess\<close> that looks at the die value only.\<close>

definition calc_by_die :: "DieRoll \<Rightarrow> number \<Rightarrow> DegreeOfSuccess" where
  "calc_by_die dieRoll dc = (if dieValue dieRoll = JSNumber NaN then FAILURE else SUCCESS)"

section \<open>Stacking of modifiers\<close>

subsection \<open>Modifiers\<close>

text \<open>
  Modelled from the spec: the class \<open>ModifierPF2e\<close> is declared in \<open>@actor/modifiers.ts\<close>, which
  is not among the source files. The record has the fields \<open>dialog.ts\<close> reads and writes
  (\<open>label\<close>, \<open>category\<close>, \<open>enabled\<close>, \<open>ignored\<close>, \<open>hideIfDisabled\<close>, \<open>critical\<close>, and \<open>m.modifier\<close>,
  here \<open>numericValue\<close> as in the spec), and the \<open>kind\<close> and \<open>subtype\<close> of the spec's data model,
  by which the spec groups modifiers. The spec calls \<open>ignored\<close> ignoredByUser and \<open>category\<close>
  the partition key.
\<close>

datatype Kind = Bonus | Penalty | Untyped

record ModifierPF2e =
  label :: string
  numericValue :: int
  kind :: Kind
  subtype :: "string option"
  category :: "string option"
  enabled :: bool
  ignored :: bool
  hideIfDisabled :: bool
  critical :: "bool option"

subsection \<open>The stacking resolver\<close>

text \<open>
  Modelled from the spec: \<open>applyStackingRules\<close> is imported from \<open>@actor/modifiers.ts\<close>, which is
  not among the source files. The spec (section 4.2) gives the rule for one list of
  modifiers: a modifier the user ignores is disabled; an untyped modifier that is not
  ignored is enabled; in a group of bonuses of one subtype the modifier enabled is the one of
  highest value among those not ignored, in a group of penalties the one of lowest value,
  and among equal values the first in the list. Only \<open>enabled\<close> is written.
\<close>

text \<open>\<open>rival m x\<close>: \<open>x\<close> is a member of the group of \<open>m\<close> that the user does not ignore.\<close>

definition rival :: "ModifierPF2e \<Rightarrow> ModifierPF2e \<Rightarrow> bool" where
  "rival m x = (\<not> ignored x \<and> kind x = kind m \<and> subtype x = subtype m)"

text \<open>\<open>better k a b\<close>: for the kind \<open>k\<close>, the value \<open>a\<close> is strictly better than \<open>b\<close>.\<close>

fun better :: "Kind \<Rightarrow> int \<Rightarrow> int \<Rightarrow> bool" where
  "better Bonus a b = (b < a)"
| "better Penalty a b = (a < b)"
| "better Untyped a b = False"

text \<open>
  Whether \<open>m\<close> is enabled, given the modifiers earlier in the list and those later in it: no rival has
  a better value, and no earlier rival has the same value.
\<close>

definition stacks :: "ModifierPF2e list \<Rightarrow> ModifierPF2e \<Rightarrow> ModifierPF2e list \<Rightarrow> bool" where
  "stacks earlier m later =
     (\<not> ignored m \<and>
      (kind m = Untyped \<or>
       (list_all (\<lambda>x. \<not> better (kind m) (numericValue x) (numericValue m))
          (filter (rival m) (earlier @ later)) \<and>
        list_all (\<lambda>x. numericValue x \<noteq> numericValue m) (filter (rival m) earlier))))"

fun stack_from :: "ModifierPF2e list \<Rightarrow> ModifierPF2e list \<Rightarrow> ModifierPF2e list" where
  "stack_from earlier [] = []"
| "stack_from earlier (m # later) =
     m\<lparr>enabled := stacks earlier m later\<rparr> # stack_from (earlier @ [m]) later"

definition applyStacking :: "ModifierPF2e list \<Rightarrow> ModifierPF2e list" where
  "applyStacking ms = stack_from [] ms"

text \<open>Modifiers used to run the resolver on concrete lists.\<close>

definition mk :: "Kind \<Rightarrow> string option \<Rightarrow> int \<Rightarrow> bool \<Rightarrow> ModifierPF2e" where
  "mk k st v ign =
     \<lparr> label = [], numericValue = v, kind = k, subtype = st, category = None,
       enabled = False, ignored = ign, hideIfDisabled = False, critical = None \<rparr>"

definition scenario_DF :: "ModifierPF2e list" where
  "scenario_DF =
     [mk Bonus (Some ''circumstance'') 2 False, mk Bonus (Some ''circumstance'') 4 False,
      mk Untyped None 1 False]"

section \<open>The damage modifier dialog (damage/dialog.ts)\<close>

subsection \<open>Modifier objects and their mutation in place\<close>

text \<open>
  The modifiers are objects: the dialog keeps them in the array \<open>formulaData.modifiers\<close>, hands
  filtered copies of the array to \<open>applyStackingRules\<close>, which writes to the objects, and
  remembers some of them in a \<open>Set\<close>, which compares by identity. So an object is a reference
  into a store, and the arrays and the set hold references.
\<close>

type_synonym ref = nat

type_synonym heap = "ref \<Rightarrow> ModifierPF2e"

definition set_enabled :: "ref \<times> bool \<Rightarrow> heap \<Rightarrow> heap" where
  "set_enabled p h = h(fst p := (h (fst p))\<lparr>enabled := snd p\<rparr>)"

text \<open>
  A resolver that reads the objects of the array it is given, decides a flag for each position
  and writes the flags to \<open>enabled\<close>, one object after the other. The decision is the parameter
  \<open>decide\<close>.
\<close>

definition mutate_enabled :: "(ModifierPF2e list \<Rightarrow> bool list) \<Rightarrow> ref list \<Rightarrow> heap \<Rightarrow> heap" where
  "mutate_enabled decide rs h = fold set_enabled (zip rs (decide (map h rs))) h"

text \<open>
  Modelled from the spec: \<open>applyStackingRules\<close> as \<open>dialog.ts\<close> calls it, on an array of objects.
  Its decision is the spec's stacking rule.
\<close>

definition stacking_flags :: "ModifierPF2e list \<Rightarrow> bool list" where
  "stacking_flags ms = map enabled (applyStacking ms)"

definition applyStackingRules :: "ref list \<Rightarrow> heap \<Rightarrow> heap" where
  "applyStackingRules rs h = mutate_enabled stacking_flags rs h"

subsection \<open>The private method \<open>#applyStackingRules\<close>\<close>

text \<open>
  Two calls, the first on the modifiers whose category is not \<open>persistent\<close>, the second on
  those whose category is. The second filter runs after the first call has written.
\<close>

definition persistent :: "heap \<Rightarrow> ref \<Rightarrow> bool" where
  "persistent h r = (category (h r) = Some ''persistent'')"

definition dialog_applyStackingRules_with ::
  "(ModifierPF2e list \<Rightarrow> bool list) \<Rightarrow> ref list \<Rightarrow> heap \<Rightarrow> heap" where
  "dialog_applyStackingRules_with decide rs h =
     (let h1 = mutate_enabled decide (filter (\<lambda>r. \<not> persistent h r) rs) h
      in mutate_enabled decide (filter (\<lambda>r. persistent h1 r) rs) h1)"

definition dialog_applyStackingRules :: "ref list \<Rightarrow> heap \<Rightarrow> heap" where
  "dialog_applyStackingRules rs h = dialog_applyStackingRules_with stacking_flags rs h"

subsection \<open>The dialog\<close>

text \<open>
  The state of a \<open>DamageModifierDialog\<close>, as far as the modifiers go: the store of the objects,
  the array \<open>formulaData.modifiers\<close>, the private set \<open>#originallyEnabled\<close> and \<open>isCritical\<close>. The
  dice, the roll mode and the rendering are left out; they do not touch the modifiers.
\<close>

record DamageModifierDialog =
  store :: heap
  formulaData_modifiers :: "ref list"
  originallyEnabled :: "ref set"
  isCritical :: bool

definition DamageModifierDialog_new :: "heap \<Rightarrow> ref list \<Rightarrow> string \<Rightarrow> DamageModifierDialog" where
  "DamageModifierDialog_new h rs outcome =
     \<lparr> store = h,
       formulaData_modifiers = rs,
       originallyEnabled = set (filter (\<lambda>r. enabled (h r)) rs),
       isCritical = (outcome = ''criticalSuccess'') \<rparr>"

text \<open>
  One entry of \<open>modifiers\<close> in the result of \<open>getData\<close>. The type label and the icon are left
  out (they are looked up in the localization and in the icon table).
\<close>

record ModifierData =
  data_label :: string
  data_category :: "string option"
  data_modifier :: int
  data_hideIfDisabled :: bool
  data_enabled :: bool
  data_ignored :: bool
  data_critical :: "bool option"
  data_show :: bool

definition getData :: "DamageModifierDialog \<Rightarrow> ModifierData list" where
  "getData d =
     map (\<lambda>r. let m = store d r in
            \<lparr> data_label = label m,
              data_category = category m,
              data_modifier = numericValue m,
              data_hideIfDisabled = (r \<notin> originallyEnabled d \<and> hideIfDisabled m),
              data_enabled = enabled m,
              data_ignored = ignored m,
              data_critical = critical m,
              data_show = (isCritical d \<or> critical m \<noteq> Some True) \<rparr>)
         (formulaData_modifiers d)"

subsection \<open>The listeners that change modifiers\<close>

text \<open>
  A click on the checkbox of a modifier. \<open>modIndex\<close> is \<open>Number(checkbox.dataset.modifierIndex)\<close>;
  when it is \<open>NaN\<close> the checkbox belongs to a die and no modifier is touched. An index outside
  the array reads \<open>undefined\<close>, and the assignment to \<open>.ignored\<close> throws a TypeError before
  anything is written.
\<close>

definition clickModifierCheckbox :: "number \<Rightarrow> bool \<Rightarrow> DamageModifierDialog \<Rightarrow> error + DamageModifierDialog" where
  "clickModifierCheckbox modIndex checked d =
     (case modIndex of
        NaN \<Rightarrow> Inr d
      | Num i \<Rightarrow>
          if 0 \<le> i \<and> i < int (length (formulaData_modifiers d)) then
            let r = formulaData_modifiers d ! nat i;
                h = (store d)(r := (store d r)\<lparr>ignored := \<not> checked\<rparr>)
            in Inr (d\<lparr>store := dialog_applyStackingRules (formulaData_modifiers d) h\<rparr>)
          else Inl TypeError)"

text \<open>A reference no modifier of the array has: the place of an object that \<open>new\<close> creates.\<close>

definition fresh_ref :: "ref list \<Rightarrow> ref" where
  "fresh_ref rs = Suc (fold max rs 0)"

text \<open>
  A click on the button that adds a modifier. \<open>v\<close> is the number read from the value field,
  \<open>type_ok\<close> says whether the type selected is one of \<open>MODIFIER_TYPES\<close>, and \<open>created\<close> is the
  object \<open>new ModifierPF2e(...)\<close> returns (the constructor is in \<open>@actor/modifiers.ts\<close>). A type
  that is not a modifier type throws; a value that is \<open>NaN\<close> or 0 is reported to the user and
  nothing is added.
\<close>

definition addModifier ::
  "number \<Rightarrow> bool \<Rightarrow> ModifierPF2e \<Rightarrow> DamageModifierDialog \<Rightarrow> error + DamageModifierDialog" where
  "addModifier v type_ok created d =
     (if \<not> type_ok then Inl (ErrorPF2e ''Unexpected invalid modifier type'')
      else if v = NaN \<or> v = Num 0 then Inr d
      else
        let r = fresh_ref (formulaData_modifiers d);
            rs = formulaData_modifiers d @ [r];
            h = (store d)(r := created)
        in Inr (d\<lparr>store := dialog_applyStackingRules rs h, formulaData_modifiers := rs\<rparr>))"

datatype event =
    ClickModifierCheckbox number bool
  | AddModifierButton number bool ModifierPF2e

fun handle :: "event \<Rightarrow> DamageModifierDialog \<Rightarrow> error + DamageModifierDialog" where
  "handle (ClickModifierCheckbox modIndex checked) d = clickModifierCheckbox modIndex checked d"
| "handle (AddModifierButton v type_ok created) d = addModifier v type_ok created d"

text \<open>
  The dialog after an event: a listener that throws has written nothing, so the dialog is
  as it was. \<open>run\<close> is the dialog after a sequence of events.
\<close>

definition after_event :: "event \<Rightarrow> DamageModifierDialog \<Rightarrow> DamageModifierDialog" where
  "after_event e d = (case handle e d of Inl err \<Rightarrow> d | Inr d' \<Rightarrow> d')"

definition run :: "event list \<Rightarrow> DamageModifierDialog \<Rightarrow> DamageModifierDialog" where
  "run evs d = fold after_event evs d"

text \<open>Two stores used to run the dialog on concrete modifiers.\<close>

definition heap_A :: heap where
  "heap_A = (\<lambda>r. mk Untyped None 0 False)
     (0 := (mk Bonus (Some ''status'') 2 False)\<lparr>enabled := True, hideIfDisabled := True\<rparr>,
      1 := (mk Bonus (Some ''status'') 1 False)\<lparr>category := Some ''persistent''\<rparr>)"

definition heap_B :: heap where
  "heap_B = heap_A(0 := mk Bonus (Some ''status'') 9 True, 2 := mk Bonus (Some ''status'') 7 False)"

definition scenario_E :: "ModifierPF2e list" where
  "scenario_E =
     [mk Bonus (Some ''circumstance'') 3 True, mk Bonus (Some ''circumstance'') 2 False]"

definition heap_C :: heap where
  "heap_C = (\<lambda>r. mk Untyped None 0 False)
     (0 := (mk Bonus (Some ''status'') 2 False)\<lparr>enabled := True, hideIfDisabled := True\<rparr>,
      1 := (mk Bonus (Some ''status'') 1 False)\<lparr>hideIfDisabled := True\<rparr>)"

definition events_C :: "event list" where
  "events_C =
     [ClickModifierCheckbox (Num 0) False,
      AddModifierButton (Num 3) True ((mk Bonus (Some ''status'') 3 False)\<lparr>hideIfDisabled := True\<rparr>)]"

section \<open>Properties of the degree of success\<close>

lemma PREFIXES_All_iff: "PREFIXES k = PREFIXES All \<longleftrightarrow> k = All"
  by (cases k) (simp_all add: CRITICAL_FAILURE_def FAILURE_def SUCCESS_def CRITICAL_SUCCESS_def)

lemma loop_find:
  "getDegreeAdjustment_loop ks v ms =
     (case find (candidate v ms) ks of None \<Rightarrow> None | Some k \<Rightarrow> adjustment_of ms k)"
proof (induction ks)
  case Nil
  show ?case by simp
next
  case (Cons k ks)
  show ?case
  proof (cases "ms k")
    case None
    then show ?thesis using Cons.IH by (simp add: candidate_def present_def)
  next
    case (Some s)
    show ?thesis
    proof (cases "s = []")
      case True
      with Some show ?thesis using Cons.IH by (simp add: candidate_def present_def)
    next
      case False
      with Some Cons.IH show ?thesis
        using PREFIXES_All_iff[of k]
        by (auto simp: candidate_def present_def adjustment_of_def skipped_by_guard_def
            matches_def Let_def simp del: PREFIXES.simps)
    qed
  qed
qed

lemma getDegreeOfSuccess_Inr:
  "terms roll = t # ts \<Longrightarrow>
   getDegreeOfSuccess S calc other roll dc =
     Inr \<lparr> unadjusted = calc (makeDieRoll S t (data roll)) (dc_value dc),
           degree_value =
             (case getDegreeAdjustment (calc (makeDieRoll S t (data roll)) (dc_value dc))
                     (modifiers_or_empty dc) of
                None \<Rightarrow> calc (makeDieRoll S t (data roll)) (dc_value dc)
              | Some a \<Rightarrow>
                  call_adjustDegreeOfSuccess other a
                    (calc (makeDieRoll S t (data roll)) (dc_value dc))),
           degreeAdjustment =
             getDegreeAdjustment (calc (makeDieRoll S t (data roll)) (dc_value dc))
               (modifiers_or_empty dc) \<rparr>"
  by (simp add: getDegreeOfSuccess_def modifiers_or_empty_def Let_def)

lemma getDegreeOfSuccess_InrD:
  assumes "getDegreeOfSuccess S calc other roll dc = Inr r"
  shows "degreeAdjustment r = getDegreeAdjustment (unadjusted r) (modifiers_or_empty dc)"
    and "degree_value r =
           (case degreeAdjustment r of None \<Rightarrow> unadjusted r
            | Some a \<Rightarrow> call_adjustDegreeOfSuccess other a (unadjusted r))"
  using assms
  by (auto simp: getDegreeOfSuccess_def modifiers_or_empty_def Let_def
      split: list.splits option.splits)

text \<open>
  C1. Whatever the unadjusted degree and the modifiers map, \<open>getDegreeAdjustment\<close> returns the
  adjustment of one key only: the first key in the order all, criticalFailure, failure,
  success, criticalSuccess that is present, is not skipped by the boundary guard and matches
  (\<open>all\<close> always, another key when it stands for the unadjusted degree). \<open>getDegreeOfSuccess\<close>
  applies that one adjustment and nothing else, and when no key is selected the final degree
  is the unadjusted one.
\<close>

theorem first_candidate_wins:
  "getDegreeAdjustment v ms =
     (case first_candidate v ms of None \<Rightarrow> None | Some k \<Rightarrow> adjustment_of ms k)
   \<and> (\<forall>S calc other roll dc r.
        getDegreeOfSuccess S calc other roll dc = Inr r \<longrightarrow>
          degreeAdjustment r =
            (case first_candidate (unadjusted r) (modifiers_or_empty dc) of
               None \<Rightarrow> None
             | Some k \<Rightarrow> adjustment_of (modifiers_or_empty dc) k)
          \<and> degree_value r =
            (case degreeAdjustment r of None \<Rightarrow> unadjusted r
             | Some (Entry a) \<Rightarrow> adjustDegreeOfSuccess a (unadjusted r)
             | Some (Inherited m) \<Rightarrow> other m (unadjusted r))
          \<and> (first_candidate (unadjusted r) (modifiers_or_empty dc) = None
               \<longrightarrow> degree_value r = unadjusted r))"
proof -
  have sel: "getDegreeAdjustment u m =
      (case first_candidate u m of None \<Rightarrow> None | Some k \<Rightarrow> adjustment_of m k)" for u m
    by (simp add: getDegreeAdjustment_def first_candidate_def loop_find)
  show ?thesis
  proof (intro conjI allI impI)
    show "getDegreeAdjustment v ms =
        (case first_candidate v ms of None \<Rightarrow> None | Some k \<Rightarrow> adjustment_of ms k)"
      by (rule sel)
  next
    fix S calc other roll dc r
    assume run: "getDegreeOfSuccess S calc other roll dc = Inr r"
    show "degreeAdjustment r =
        (case first_candidate (unadjusted r) (modifiers_or_empty dc) of None \<Rightarrow> None
         | Some k \<Rightarrow> adjustment_of (modifiers_or_empty dc) k)"
      using getDegreeOfSuccess_InrD(1)[OF run] sel by simp
    show "degree_value r =
        (case degreeAdjustment r of None \<Rightarrow> unadjusted r
         | Some (Entry a) \<Rightarrow> adjustDegreeOfSuccess a (unadjusted r)
         | Some (Inherited m) \<Rightarrow> other m (unadjusted r))"
      using getDegreeOfSuccess_InrD(2)[OF run]
      by (simp split: option.splits table_value.splits)
    assume "first_candidate (unadjusted r) (modifiers_or_empty dc) = None"
    then show "degree_value r = unadjusted r"
      using getDegreeOfSuccess_InrD[OF run] sel by simp
  qed
qed

lemmas consts_defs = CRITICAL_FAILURE_def FAILURE_def SUCCESS_def CRITICAL_SUCCESS_def
  LOWER_BY_TWO_def LOWER_def INCREASE_def INCREASE_BY_TWO_def

theorem first_candidate_wins_witness:
  "getDegreeOfSuccess no_strings (\<lambda>d v. SUCCESS) keep_degree (roll_of_total (JSNumber (Num 12)))
         \<lparr> modifiers = Some [Failure \<mapsto> ''one-degree-better''], dc_value = Num 15 \<rparr>
     = Inr \<lparr> unadjusted = 2, degree_value = 2, degreeAdjustment = None \<rparr>
   \<and> first_candidate 2 [Failure \<mapsto> ''one-degree-better''] = None
   \<and> degree_value \<lparr> unadjusted = 2, degree_value = 2, degreeAdjustment = None \<rparr>
       = unadjusted \<lparr> unadjusted = 2, degree_value = 2, degreeAdjustment = None \<rparr>
   \<and> first_candidate 2 [All \<mapsto> ''one-degree-worse'', Success \<mapsto> ''two-degrees-better''] = Some All
   \<and> getDegreeAdjustment 2 [All \<mapsto> ''one-degree-worse'', Success \<mapsto> ''two-degrees-better'']
       = Some (Entry (- 1))"
proof -
  let ?dc = "\<lparr> modifiers = Some [Failure \<mapsto> ''one-degree-better''], dc_value = Num 15 \<rparr>"
  let ?r = "\<lparr> unadjusted = 2, degree_value = 2, degreeAdjustment = None \<rparr>"
  have run: "getDegreeOfSuccess no_strings (\<lambda>d v. SUCCESS) keep_degree
      (roll_of_total (JSNumber (Num 12))) ?dc = Inr ?r"
    by (simp add: getDegreeOfSuccess_def roll_of_total_def getDegreeAdjustment_def
        priority_order_def ADJUSTMENTS_def Let_def consts_defs)
  have none: "first_candidate 2 [Failure \<mapsto> ''one-degree-better''] = None"
    by (simp add: first_candidate_def priority_order_def candidate_def present_def matches_def
        consts_defs)
  have fc: "first_candidate 2 [All \<mapsto> ''one-degree-worse'', Success \<mapsto> ''two-degrees-better''] = Some All"
    by (simp add: first_candidate_def priority_order_def candidate_def present_def matches_def
        skipped_by_guard_def adjustment_of_def ADJUSTMENTS_def consts_defs)
  from first_candidate_wins[THEN conjunct2, rule_format, OF run] none
  have same: "degree_value ?r = unadjusted ?r"
    by (simp add: modifiers_or_empty_def)
  from first_candidate_wins[of 2 "[All \<mapsto> ''one-degree-worse'', Success \<mapsto> ''two-degrees-better'']"]
  have "getDegreeAdjustment 2 [All \<mapsto> ''one-degree-worse'', Success \<mapsto> ''two-degrees-better'']
      = Some (Entry (- 1))"
    by (simp add: fc adjustment_of_def ADJUSTMENTS_def LOWER_def)
  with run none fc same show ?thesis by simp
qed

lemma find_SomeD: "find P xs = Some x \<Longrightarrow> P x"
  by (induction xs) (auto split: if_splits)

lemma getDegreeAdjustment_not_skipped:
  "getDegreeAdjustment v ms = Some a \<Longrightarrow> \<not> skipped_by_guard v (Some a)"
proof -
  assume a: "getDegreeAdjustment v ms = Some a"
  then obtain k where k: "find (candidate v ms) priority_order = Some k" and adj: "adjustment_of ms k = Some a"
    by (auto simp: getDegreeAdjustment_def loop_find split: option.splits)
  from find_SomeD[OF k] have "\<not> skipped_by_guard v (adjustment_of ms k)"
    by (simp add: candidate_def)
  with adj show ?thesis by simp
qed

lemma loop_skipped:
  "ms k = Some s \<Longrightarrow> skipped_by_guard v (ADJUSTMENTS s) \<Longrightarrow>
   getDegreeAdjustment_loop (k # rest) v ms = getDegreeAdjustment_loop rest v ms"
  by (auto simp: skipped_by_guard_def Let_def)

text \<open>
  C2. When the unadjusted degree is a critical success the selection never returns the
  single-step increase, and when it is a critical failure it never returns the single-step
  lowering; the two-step adjustments can still be returned in those two states. A candidate
  the guard skips does not end the loop: the loop goes on with the keys after it, so that a
  key of lower priority can still be selected.
\<close>

theorem boundary_guard:
  "getDegreeAdjustment CRITICAL_SUCCESS ms \<noteq> Some (Entry INCREASE)
   \<and> getDegreeAdjustment CRITICAL_FAILURE ms \<noteq> Some (Entry LOWER)
   \<and> (\<exists>ms'. getDegreeAdjustment CRITICAL_SUCCESS ms' = Some (Entry INCREASE_BY_TWO))
   \<and> (\<exists>ms'. getDegreeAdjustment CRITICAL_FAILURE ms' = Some (Entry LOWER_BY_TWO))
   \<and> (\<forall>k s rest v. ms k = Some s \<and> skipped_by_guard v (ADJUSTMENTS s) \<longrightarrow>
         getDegreeAdjustment_loop (k # rest) v ms = getDegreeAdjustment_loop rest v ms)
   \<and> getDegreeAdjustment CRITICAL_SUCCESS
        [All \<mapsto> ''one-degree-better'', CriticalSuccess \<mapsto> ''two-degrees-worse'']
       = Some (Entry LOWER_BY_TWO)
   \<and> getDegreeAdjustment CRITICAL_FAILURE
        [All \<mapsto> ''one-degree-worse'', CriticalFailure \<mapsto> ''two-degrees-better'']
       = Some (Entry INCREASE_BY_TWO)"
proof (intro conjI allI impI)
  show "getDegreeAdjustment CRITICAL_SUCCESS ms \<noteq> Some (Entry INCREASE)"
    using getDegreeAdjustment_not_skipped[of CRITICAL_SUCCESS ms "Entry INCREASE"]
    by (auto simp: skipped_by_guard_def)
  show "getDegreeAdjustment CRITICAL_FAILURE ms \<noteq> Some (Entry LOWER)"
    using getDegreeAdjustment_not_skipped[of CRITICAL_FAILURE ms "Entry LOWER"]
    by (auto simp: skipped_by_guard_def)
  show "\<exists>ms'. getDegreeAdjustment CRITICAL_SUCCESS ms' = Some (Entry INCREASE_BY_TWO)"
    by (rule exI[of _ "[All \<mapsto> ''two-degrees-better'']"])
      (simp add: getDegreeAdjustment_def priority_order_def ADJUSTMENTS_def Let_def consts_defs)
  show "\<exists>ms'. getDegreeAdjustment CRITICAL_FAILURE ms' = Some (Entry LOWER_BY_TWO)"
    by (rule exI[of _ "[All \<mapsto> ''two-degrees-worse'']"])
      (simp add: getDegreeAdjustment_def priority_order_def ADJUSTMENTS_def Let_def consts_defs)
  show "getDegreeAdjustment CRITICAL_SUCCESS
        [All \<mapsto> ''one-degree-better'', CriticalSuccess \<mapsto> ''two-degrees-worse'']
       = Some (Entry LOWER_BY_TWO)"
    by (simp add: getDegreeAdjustment_def priority_order_def ADJUSTMENTS_def Let_def consts_defs)
  show "getDegreeAdjustment CRITICAL_FAILURE
        [All \<mapsto> ''one-degree-worse'', CriticalFailure \<mapsto> ''two-degrees-better'']
       = Some (Entry INCREASE_BY_TWO)"
    by (simp add: getDegreeAdjustment_def priority_order_def ADJUSTMENTS_def Let_def consts_defs)
next
  fix k s rest v
  assume "ms k = Some s \<and> skipped_by_guard v (ADJUSTMENTS s)"
  then show "getDegreeAdjustment_loop (k # rest) v ms = getDegreeAdjustment_loop rest v ms"
    using loop_skipped[of ms k s v rest] by blast
qed

theorem boundary_guard_witness:
  "[All \<mapsto> ''one-degree-better'', CriticalSuccess \<mapsto> ''two-degrees-worse''] All = Some ''one-degree-better''
   \<and> skipped_by_guard 3 (ADJUSTMENTS ''one-degree-better'')
   \<and> getDegreeAdjustment_loop [All, CriticalSuccess] 3
        [All \<mapsto> ''one-degree-better'', CriticalSuccess \<mapsto> ''two-degrees-worse'']
      = getDegreeAdjustment_loop [CriticalSuccess] 3
        [All \<mapsto> ''one-degree-better'', CriticalSuccess \<mapsto> ''two-degrees-worse'']
   \<and> getDegreeAdjustment_loop [CriticalSuccess] 3
        [All \<mapsto> ''one-degree-better'', CriticalSuccess \<mapsto> ''two-degrees-worse'']
      = Some (Entry (- 2))"
proof -
  let ?ms = "[All \<mapsto> ''one-degree-better'', CriticalSuccess \<mapsto> ''two-degrees-worse'']"
  have h: "?ms All = Some ''one-degree-better'' \<and> skipped_by_guard 3 (ADJUSTMENTS ''one-degree-better'')"
    by (simp add: skipped_by_guard_def ADJUSTMENTS_def consts_defs)
  from boundary_guard[of ?ms, THEN conjunct2, THEN conjunct2, THEN conjunct2, THEN conjunct2,
      THEN conjunct1, rule_format, OF h, of "[CriticalSuccess]"]
  have "getDegreeAdjustment_loop [All, CriticalSuccess] 3 ?ms
      = getDegreeAdjustment_loop [CriticalSuccess] 3 ?ms" .
  moreover have "getDegreeAdjustment_loop [CriticalSuccess] 3 ?ms = Some (Entry (- 2))"
    by (simp add: ADJUSTMENTS_def Let_def consts_defs)
  ultimately show ?thesis using h by simp
qed

lemma ADJUSTMENTS_None_iff:
  "ADJUSTMENTS s = None \<longleftrightarrow> \<not> recognized s \<and> s \<notin> set Object_prototype_keys"
  by (simp add: ADJUSTMENTS_def recognized_def)

lemma isl_getDegreeOfSuccess:
  "isl (getDegreeOfSuccess S calc other roll dc) \<longleftrightarrow> terms roll = []"
  by (simp add: getDegreeOfSuccess_def Let_def split: list.splits)

text \<open>
  C3, as the specification states it, fails: with the string \<open>three-degrees-better\<close> under the
  key \<open>all\<close> the resolution returns an outcome, and no modifiers map makes a roll that has a
  first term fail.
\<close>

theorem unrecognized_string_no_error:
  "getDegreeOfSuccess no_strings (\<lambda>d v. FAILURE) keep_degree (roll_of_total (JSNumber (Num 3)))
       \<lparr> modifiers = Some [All \<mapsto> ''three-degrees-better'', Failure \<mapsto> ''one-degree-better''],
         dc_value = Num 15 \<rparr>
     = Inr \<lparr> unadjusted = 1, degree_value = 1, degreeAdjustment = None \<rparr>
   \<and> unrecognized_in [All \<mapsto> ''three-degrees-better'', Failure \<mapsto> ''one-degree-better'']
   \<and> \<not> (\<exists>S calc other roll dc ms. terms roll \<noteq> [] \<and> modifiers dc = Some ms \<and> unrecognized_in ms
            \<and> isl (getDegreeOfSuccess S calc other roll dc))"
proof (intro conjI)
  show "getDegreeOfSuccess no_strings (\<lambda>d v. FAILURE) keep_degree (roll_of_total (JSNumber (Num 3)))
       \<lparr> modifiers = Some [All \<mapsto> ''three-degrees-better'', Failure \<mapsto> ''one-degree-better''],
         dc_value = Num 15 \<rparr>
     = Inr \<lparr> unadjusted = 1, degree_value = 1, degreeAdjustment = None \<rparr>"
    by (simp add: getDegreeOfSuccess_def roll_of_total_def getDegreeAdjustment_def
        priority_order_def ADJUSTMENTS_def Object_prototype_keys_def Let_def consts_defs)
  show "unrecognized_in [All \<mapsto> ''three-degrees-better'', Failure \<mapsto> ''one-degree-better'']"
    by (simp add: unrecognized_in_def priority_order_def recognized_def)
  show "\<not> (\<exists>S calc other roll dc ms. terms roll \<noteq> [] \<and> modifiers dc = Some ms \<and> unrecognized_in ms
            \<and> isl (getDegreeOfSuccess S calc other roll dc))"
    by (auto simp: isl_getDegreeOfSuccess)
qed

text \<open>
  C3, amended. A string that is none of the four recognized values and no property name
  inherited from \<open>Object.prototype\<close> is silently treated as no adjustment: when its key is the
  first candidate of a roll that has a first term, \<open>getDegreeOfSuccess\<close> returns an outcome,
  the loop has ended at that key, no adjustment is reported and the final degree is the
  unadjusted one.
\<close>

theorem unrecognized_string_is_no_adjustment:
  "terms roll = t # ts
   \<and> u = calc (makeDieRoll S t (data roll)) (dc_value dc)
   \<and> first_candidate u (modifiers_or_empty dc) = Some k
   \<and> modifiers_or_empty dc k = Some s
   \<and> \<not> recognized s \<and> s \<notin> set Object_prototype_keys
   \<longrightarrow> getDegreeOfSuccess S calc other roll dc =
         Inr \<lparr> unadjusted = u, degree_value = u, degreeAdjustment = None \<rparr>"
proof
  assume h: "terms roll = t # ts
   \<and> u = calc (makeDieRoll S t (data roll)) (dc_value dc)
   \<and> first_candidate u (modifiers_or_empty dc) = Some k
   \<and> modifiers_or_empty dc k = Some s
   \<and> \<not> recognized s \<and> s \<notin> set Object_prototype_keys"
  then have t: "terms roll = t # ts"
    and u: "calc (makeDieRoll S t (data roll)) (dc_value dc) = u"
    and fc: "find (candidate u (modifiers_or_empty dc)) priority_order = Some k"
    and s: "modifiers_or_empty dc k = Some s"
    unfolding first_candidate_def by auto
  have "ADJUSTMENTS s = None" using h by (simp add: ADJUSTMENTS_None_iff)
  then have "getDegreeAdjustment u (modifiers_or_empty dc) = None"
    by (simp add: getDegreeAdjustment_def loop_find fc adjustment_of_def s)
  then show "getDegreeOfSuccess S calc other roll dc =
         Inr \<lparr> unadjusted = u, degree_value = u, degreeAdjustment = None \<rparr>"
    by (simp add: getDegreeOfSuccess_Inr[OF t] u)
qed

theorem unrecognized_string_is_no_adjustment_witness:
  "terms (roll_of_total (JSNumber (Num 3))) = [\<lparr> total = JSNumber (Num 3) \<rparr>]
   \<and> first_candidate 1 [All \<mapsto> ''three-degrees-better'', Failure \<mapsto> ''one-degree-better''] = Some All
   \<and> \<not> recognized ''three-degrees-better''
   \<and> ''three-degrees-better'' \<notin> set Object_prototype_keys
   \<and> getDegreeOfSuccess no_strings (\<lambda>d v. FAILURE) keep_degree (roll_of_total (JSNumber (Num 3)))
       \<lparr> modifiers = Some [All \<mapsto> ''three-degrees-better'', Failure \<mapsto> ''one-degree-better''],
         dc_value = Num 15 \<rparr>
     = Inr \<lparr> unadjusted = 1, degree_value = 1, degreeAdjustment = None \<rparr>"
proof -
  let ?ms = "[All \<mapsto> ''three-degrees-better'', Failure \<mapsto> ''one-degree-better'']"
  let ?dc = "\<lparr> modifiers = Some ?ms, dc_value = Num 15 \<rparr>"
  let ?roll = "roll_of_total (JSNumber (Num 3))"
  have t: "terms ?roll = \<lparr> total = JSNumber (Num 3) \<rparr> # []"
    by (simp add: roll_of_total_def)
  have fc: "first_candidate 1 ?ms = Some All"
    by (simp add: first_candidate_def priority_order_def candidate_def present_def matches_def
        skipped_by_guard_def adjustment_of_def ADJUSTMENTS_def Object_prototype_keys_def
        consts_defs)
  have nr: "\<not> recognized ''three-degrees-better''"
    by (simp add: recognized_def)
  have ni: "''three-degrees-better'' \<notin> set Object_prototype_keys"
    by (simp add: Object_prototype_keys_def)
  have h: "terms ?roll = \<lparr> total = JSNumber (Num 3) \<rparr> # []
      \<and> 1 = (\<lambda>d v. FAILURE) (makeDieRoll no_strings \<lparr> total = JSNumber (Num 3) \<rparr> (data ?roll)) (dc_value ?dc)
      \<and> first_candidate 1 (modifiers_or_empty ?dc) = Some All
      \<and> modifiers_or_empty ?dc All = Some ''three-degrees-better''
      \<and> \<not> recognized ''three-degrees-better''
      \<and> ''three-degrees-better'' \<notin> set Object_prototype_keys"
    using t fc nr ni by (simp add: modifiers_or_empty_def FAILURE_def)
  from unrecognized_string_is_no_adjustment[rule_format, OF h, where other = keep_degree]
  have "getDegreeOfSuccess no_strings (\<lambda>d v. FAILURE) keep_degree ?roll ?dc
      = Inr \<lparr> unadjusted = 1, degree_value = 1, degreeAdjustment = None \<rparr>" .
  with t fc nr ni show ?thesis by simp
qed

lemma ADJUSTMENTS_inherited: "s \<in> set Object_prototype_keys \<Longrightarrow> ADJUSTMENTS s = Some (Inherited s)"
  by (auto simp: ADJUSTMENTS_def Object_prototype_keys_def)

text \<open>
  X1. A string that is a property name inherited from \<open>Object.prototype\<close>, such as
  \<open>constructor\<close>, is not read as \<open>undefined\<close>: when its key is the first candidate,
  \<open>getDegreeAdjustment\<close> returns the inherited member, and \<open>getDegreeOfSuccess\<close> reports it as
  the adjustment and takes as the final degree what \<open>adjustDegreeOfSuccess\<close> returns for it.
\<close>

theorem inherited_member_is_returned:
  "terms roll = t # ts
   \<and> u = calc (makeDieRoll S t (data roll)) (dc_value dc)
   \<and> first_candidate u (modifiers_or_empty dc) = Some k
   \<and> modifiers_or_empty dc k = Some s
   \<and> s \<in> set Object_prototype_keys
   \<longrightarrow> getDegreeOfSuccess S calc other roll dc =
         Inr \<lparr> unadjusted = u, degree_value = other s u, degreeAdjustment = Some (Inherited s) \<rparr>"
proof
  assume h: "terms roll = t # ts
   \<and> u = calc (makeDieRoll S t (data roll)) (dc_value dc)
   \<and> first_candidate u (modifiers_or_empty dc) = Some k
   \<and> modifiers_or_empty dc k = Some s
   \<and> s \<in> set Object_prototype_keys"
  then have t: "terms roll = t # ts"
    and u: "calc (makeDieRoll S t (data roll)) (dc_value dc) = u"
    and fc: "find (candidate u (modifiers_or_empty dc)) priority_order = Some k"
    and s: "modifiers_or_empty dc k = Some s"
    unfolding first_candidate_def by auto
  have "ADJUSTMENTS s = Some (Inherited s)" using h by (simp add: ADJUSTMENTS_inherited)
  then have "getDegreeAdjustment u (modifiers_or_empty dc) = Some (Inherited s)"
    by (simp add: getDegreeAdjustment_def loop_find fc adjustment_of_def s)
  then show "getDegreeOfSuccess S calc other roll dc =
         Inr \<lparr> unadjusted = u, degree_value = other s u, degreeAdjustment = Some (Inherited s) \<rparr>"
    by (simp add: getDegreeOfSuccess_Inr[OF t] u)
qed

theorem inherited_member_is_returned_witness:
  "terms (roll_of_total (JSNumber (Num 3))) = [\<lparr> total = JSNumber (Num 3) \<rparr>]
   \<and> first_candidate 1 [All \<mapsto> ''constructor'', Failure \<mapsto> ''one-degree-better''] = Some All
   \<and> ''constructor'' \<in> set Object_prototype_keys
   \<and> getDegreeOfSuccess no_strings (\<lambda>d v. FAILURE) keep_degree (roll_of_total (JSNumber (Num 3)))
       \<lparr> modifiers = Some [All \<mapsto> ''constructor'', Failure \<mapsto> ''one-degree-better''],
         dc_value = Num 15 \<rparr>
     = Inr \<lparr> unadjusted = 1, degree_value = 1, degreeAdjustment = Some (Inherited ''constructor'') \<rparr>"
proof -
  let ?ms = "[All \<mapsto> ''constructor'', Failure \<mapsto> ''one-degree-better'']"
  let ?dc = "\<lparr> modifiers = Some ?ms, dc_value = Num 15 \<rparr>"
  let ?roll = "roll_of_total (JSNumber (Num 3))"
  have t: "terms ?roll = \<lparr> total = JSNumber (Num 3) \<rparr> # []"
    by (simp add: roll_of_total_def)
  have fc: "first_candidate 1 ?ms = Some All"
    by (simp add: first_candidate_def priority_order_def candidate_def present_def matches_def
        skipped_by_guard_def adjustment_of_def ADJUSTMENTS_def Object_prototype_keys_def
        consts_defs)
  have ih: "''constructor'' \<in> set Object_prototype_keys"
    by (simp add: Object_prototype_keys_def)
  have h: "terms ?roll = \<lparr> total = JSNumber (Num 3) \<rparr> # []
      \<and> 1 = (\<lambda>d v. FAILURE) (makeDieRoll no_strings \<lparr> total = JSNumber (Num 3) \<rparr> (data ?roll)) (dc_value ?dc)
      \<and> first_candidate 1 (modifiers_or_empty ?dc) = Some All
      \<and> modifiers_or_empty ?dc All = Some ''constructor''
      \<and> ''constructor'' \<in> set Object_prototype_keys"
    using t fc ih by (simp add: modifiers_or_empty_def FAILURE_def)
  from inherited_member_is_returned[rule_format, OF h, where other = keep_degree]
  have "getDegreeOfSuccess no_strings (\<lambda>d v. FAILURE) keep_degree ?roll ?dc
      = Inr \<lparr> unadjusted = 1, degree_value = 1, degreeAdjustment = Some (Inherited ''constructor'') \<rparr>"
    by (simp add: keep_degree_def)
  with t fc ih show ?thesis by simp
qed

text \<open>
  C4. For an unadjusted degree between critical failure and critical success and a step of
  -2, -1, +1 or +2, the shifted degree stays in that range: it is the sum, cut off at the two
  bounds. The degree \<open>getDegreeOfSuccess\<close> returns is therefore in the range whenever the
  unadjusted one is and the adjustment it reports, if any, is a number of the table, as it
  is for every map that holds no property name inherited from \<open>Object.prototype\<close>.
\<close>

theorem final_degree_in_range:
  "(CRITICAL_FAILURE \<le> u \<and> u \<le> CRITICAL_SUCCESS
      \<and> (a = LOWER_BY_TWO \<or> a = LOWER \<or> a = INCREASE \<or> a = INCREASE_BY_TWO)
    \<longrightarrow> CRITICAL_FAILURE \<le> adjustDegreeOfSuccess a u
        \<and> adjustDegreeOfSuccess a u \<le> CRITICAL_SUCCESS
        \<and> adjustDegreeOfSuccess a u =
            (if u + a < CRITICAL_FAILURE then CRITICAL_FAILURE
             else if CRITICAL_SUCCESS < u + a then CRITICAL_SUCCESS else u + a))
   \<and> (getDegreeOfSuccess S calc other roll dc = Inr r
        \<and> CRITICAL_FAILURE \<le> unadjusted r \<and> unadjusted r \<le> CRITICAL_SUCCESS
        \<and> (\<forall>m. degreeAdjustment r \<noteq> Some (Inherited m))
      \<longrightarrow> CRITICAL_FAILURE \<le> degree_value r \<and> degree_value r \<le> CRITICAL_SUCCESS)
   \<and> (getDegreeOfSuccess S calc other roll dc = Inr r
        \<and> (\<forall>k s. modifiers_or_empty dc k = Some s \<longrightarrow> s \<notin> set Object_prototype_keys)
      \<longrightarrow> (\<forall>m. degreeAdjustment r \<noteq> Some (Inherited m)))"
proof (intro conjI impI)
  assume "getDegreeOfSuccess S calc other roll dc = Inr r
        \<and> CRITICAL_FAILURE \<le> unadjusted r \<and> unadjusted r \<le> CRITICAL_SUCCESS
        \<and> (\<forall>m. degreeAdjustment r \<noteq> Some (Inherited m))"
  then have run: "getDegreeOfSuccess S calc other roll dc = Inr r"
    and b: "CRITICAL_FAILURE \<le> unadjusted r" "unadjusted r \<le> CRITICAL_SUCCESS"
    and n: "(\<forall>m. degreeAdjustment r \<noteq> Some (Inherited m))" by simp_all
  have "CRITICAL_FAILURE \<le> degree_value r \<and> degree_value r \<le> CRITICAL_SUCCESS"
  proof (cases "degreeAdjustment r")
    case None
    with getDegreeOfSuccess_InrD(2)[OF run] b show ?thesis by simp
  next
    case (Some x)
    with n obtain a where "x = Entry a" by (cases x) auto
    with Some getDegreeOfSuccess_InrD(2)[OF run] show ?thesis
      by (simp add: adjustDegreeOfSuccess_def consts_defs)
  qed
  then show "CRITICAL_FAILURE \<le> degree_value r" "degree_value r \<le> CRITICAL_SUCCESS"
    by simp_all
next
  assume h: "getDegreeOfSuccess S calc other roll dc = Inr r
        \<and> (\<forall>k s. modifiers_or_empty dc k = Some s \<longrightarrow> s \<notin> set Object_prototype_keys)"
  then have run: "getDegreeOfSuccess S calc other roll dc = Inr r" by simp
  show "\<forall>m. degreeAdjustment r \<noteq> Some (Inherited m)"
  proof (intro allI notI)
    fix m assume "degreeAdjustment r = Some (Inherited m)"
    then have m: "getDegreeAdjustment (unadjusted r) (modifiers_or_empty dc) = Some (Inherited m)"
      using getDegreeOfSuccess_InrD(1)[OF run] by simp
    then obtain k where k: "find (candidate (unadjusted r) (modifiers_or_empty dc)) priority_order = Some k"
      and adj: "adjustment_of (modifiers_or_empty dc) k = Some (Inherited m)"
      by (auto simp: getDegreeAdjustment_def loop_find split: option.splits)
    from adj obtain s where s: "modifiers_or_empty dc k = Some s" "ADJUSTMENTS s = Some (Inherited m)"
      by (auto simp: adjustment_of_def split: option.splits)
    from h s(1) have "s \<notin> set Object_prototype_keys" by blast
    with s(2) show False by (auto simp: ADJUSTMENTS_def split: if_splits)
  qed
qed (auto simp: adjustDegreeOfSuccess_def consts_defs)

theorem final_degree_in_range_witness:
  "adjustDegreeOfSuccess 2 2 = 3 \<and> adjustDegreeOfSuccess (- 2) 1 = 0
   \<and> getDegreeOfSuccess no_strings (\<lambda>d v. CRITICAL_SUCCESS) keep_degree (roll_of_total (JSNumber (Num 20)))
       \<lparr> modifiers = Some [All \<mapsto> ''two-degrees-better''], dc_value = Num 15 \<rparr>
     = Inr \<lparr> unadjusted = 3, degree_value = 3, degreeAdjustment = Some (Entry 2) \<rparr>
   \<and> (\<forall>m. Some (Entry 2) \<noteq> Some (Inherited m))
   \<and> 0 \<le> degree_value \<lparr> unadjusted = 3, degree_value = 3, degreeAdjustment = Some (Entry 2) \<rparr>
   \<and> degree_value \<lparr> unadjusted = 3, degree_value = 3, degreeAdjustment = Some (Entry 2) \<rparr> \<le> 3"
proof -
  let ?dc = "\<lparr> modifiers = Some [All \<mapsto> ''two-degrees-better''], dc_value = Num 15 \<rparr>"
  let ?r = "\<lparr> unadjusted = 3, degree_value = 3, degreeAdjustment = Some (Entry 2) \<rparr>"
  have run: "getDegreeOfSuccess no_strings (\<lambda>d v. CRITICAL_SUCCESS) keep_degree
      (roll_of_total (JSNumber (Num 20))) ?dc = Inr ?r"
    by (simp add: getDegreeOfSuccess_def roll_of_total_def getDegreeAdjustment_def
        priority_order_def ADJUSTMENTS_def adjustDegreeOfSuccess_def Let_def consts_defs)
  have wt: "\<forall>k s. modifiers_or_empty ?dc k = Some s \<longrightarrow> s \<notin> set Object_prototype_keys"
    by (simp add: modifiers_or_empty_def Object_prototype_keys_def)
  note inst = final_degree_in_range[of _ _ no_strings "\<lambda>d v. CRITICAL_SUCCESS" keep_degree
      "roll_of_total (JSNumber (Num 20))" ?dc ?r]
  from inst[THEN conjunct2, THEN conjunct2, rule_format, OF conjI[OF run wt]]
  have n: "\<forall>m. degreeAdjustment ?r \<noteq> Some (Inherited m)" by blast
  have h: "getDegreeOfSuccess no_strings (\<lambda>d v. CRITICAL_SUCCESS) keep_degree
        (roll_of_total (JSNumber (Num 20))) ?dc = Inr ?r
      \<and> CRITICAL_FAILURE \<le> unadjusted ?r \<and> unadjusted ?r \<le> CRITICAL_SUCCESS
      \<and> (\<forall>m. degreeAdjustment ?r \<noteq> Some (Inherited m))"
    using run n by (simp add: consts_defs)
  have h1: "CRITICAL_FAILURE \<le> 2 \<and> 2 \<le> CRITICAL_SUCCESS
      \<and> ((2::int) = LOWER_BY_TWO \<or> 2 = LOWER \<or> 2 = INCREASE \<or> 2 = INCREASE_BY_TWO)"
    by (simp add: consts_defs)
  have h2: "CRITICAL_FAILURE \<le> 1 \<and> 1 \<le> CRITICAL_SUCCESS
      \<and> (- 2 = LOWER_BY_TWO \<or> - 2 = LOWER \<or> - 2 = INCREASE \<or> - 2 = INCREASE_BY_TWO)"
    by (simp add: consts_defs)
  from inst[THEN conjunct2, THEN conjunct1, rule_format, OF h]
  have "CRITICAL_FAILURE \<le> degree_value ?r \<and> degree_value ?r \<le> CRITICAL_SUCCESS" .
  moreover from final_degree_in_range[THEN conjunct1, rule_format, OF h1]
  have "adjustDegreeOfSuccess 2 2 = 3" by (simp add: consts_defs)
  moreover from final_degree_in_range[THEN conjunct1, rule_format, OF h2]
  have "adjustDegreeOfSuccess (- 2) 1 = 0" by (simp add: consts_defs)
  ultimately show ?thesis using run n by (simp add: consts_defs)
qed

lemma Number_is_number: "\<exists>n. Number S v = JSNumber n"
  by (cases v) simp_all

text \<open>
  C10. The die value is \<open>Number(roll.terms[0].total) ?? 0\<close>. \<open>Number\<close> always returns a number,
  never \<open>null\<close> or \<open>undefined\<close>, so the operator \<open>??\<close> never takes its right-hand side: the die
  value is \<open>Number(total)\<close> for every total. A total that is \<open>undefined\<close>, or a string that is no
  numeric literal, gives the die value \<open>NaN\<close>, not 0, and that die value is what
  \<open>calculateDegreeOfSuccess\<close> receives.
\<close>

theorem die_value_fallback_unreachable:
  "nullish_coalesce (Number S v) (JSNumber (Num 0)) = Number S v
   \<and> (\<exists>n. Number S v = JSNumber n)
   \<and> dieValue (makeDieRoll S \<lparr> total = v \<rparr> d) = Number S v
   \<and> dieValue (makeDieRoll S \<lparr> total = JSUndefined \<rparr> d) = JSNumber NaN
   \<and> (S s = NaN \<longrightarrow> dieValue (makeDieRoll S \<lparr> total = JSString s \<rparr> d) = JSNumber NaN)
   \<and> JSNumber NaN \<noteq> JSNumber (Num 0)
   \<and> (terms roll = t # ts \<longrightarrow>
        (\<exists>r. getDegreeOfSuccess S calc other roll dc = Inr r
           \<and> unadjusted r =
               calc \<lparr> dieValue = Number S (total t),
                      modifier = nullish_coalesce (totalModifier (data roll)) (JSNumber (Num 0)) \<rparr>
                    (dc_value dc)))"
proof -
  have nc: "nullish_coalesce (Number S w) (JSNumber (Num 0)) = Number S w" for w
    using Number_is_number[of S w] by (auto simp: nullish_coalesce_def)
  have dv: "dieValue (makeDieRoll S \<lparr> total = w \<rparr> d) = Number S w" for w
    by (simp add: makeDieRoll_def nc)
  have run: "terms roll = t # ts \<longrightarrow>
        (\<exists>r. getDegreeOfSuccess S calc other roll dc = Inr r
           \<and> unadjusted r =
               calc \<lparr> dieValue = Number S (total t),
                      modifier = nullish_coalesce (totalModifier (data roll)) (JSNumber (Num 0)) \<rparr>
                    (dc_value dc))"
    by (simp add: getDegreeOfSuccess_Inr makeDieRoll_def nc)
  show ?thesis
    using nc[of v] Number_is_number[of S v] dv[of v] dv[of JSUndefined] dv[of "JSString s"] run
    by simp
qed

theorem die_value_fallback_unreachable_witness:
  "no_strings ''abc'' = NaN
   \<and> dieValue (makeDieRoll no_strings \<lparr> total = JSString ''abc'' \<rparr> \<lparr> totalModifier = JSUndefined \<rparr>)
       = JSNumber NaN
   \<and> terms (roll_of_total JSUndefined) = [\<lparr> total = JSUndefined \<rparr>]
   \<and> (\<exists>r. getDegreeOfSuccess no_strings calc_by_die keep_degree (roll_of_total JSUndefined)
              \<lparr> modifiers = None, dc_value = Num 15 \<rparr> = Inr r
         \<and> unadjusted r = FAILURE)"
proof -
  have s: "no_strings ''abc'' = NaN" by (simp add: no_strings_def)
  have t: "terms (roll_of_total JSUndefined) = \<lparr> total = JSUndefined \<rparr> # []"
    by (simp add: roll_of_total_def)
  from die_value_fallback_unreachable[where S = no_strings and d = "\<lparr> totalModifier = JSUndefined \<rparr>"
        and s = "''abc''",
      THEN conjunct2, THEN conjunct2, THEN conjunct2, THEN conjunct2, THEN conjunct1, rule_format, OF s]
  have a: "dieValue (makeDieRoll no_strings \<lparr> total = JSString ''abc'' \<rparr> \<lparr> totalModifier = JSUndefined \<rparr>)
       = JSNumber NaN" .
  from die_value_fallback_unreachable[where S = no_strings and roll = "roll_of_total JSUndefined"
        and calc = calc_by_die and other = keep_degree
        and dc = "\<lparr> modifiers = None, dc_value = Num 15 \<rparr>",
      THEN conjunct2, THEN conjunct2, THEN conjunct2, THEN conjunct2, THEN conjunct2, THEN conjunct2,
      rule_format, OF t]
  have "\<exists>r. getDegreeOfSuccess no_strings calc_by_die keep_degree (roll_of_total JSUndefined)
              \<lparr> modifiers = None, dc_value = Num 15 \<rparr> = Inr r
         \<and> unadjusted r = FAILURE"
    by (simp add: calc_by_die_def)
  with s a t show ?thesis by simp
qed

section \<open>Properties of the stacking resolver\<close>


lemma length_stack_from [simp]: "length (stack_from b xs) = length xs"
  by (induction xs arbitrary: b) auto

lemma stack_from_nth:
  "i < length xs \<Longrightarrow>
   stack_from b xs ! i = (xs ! i)\<lparr>enabled := stacks (b @ take i xs) (xs ! i) (drop (Suc i) xs)\<rparr>"
proof (induction xs arbitrary: b i)
  case Nil
  then show ?case by simp
next
  case (Cons x xs)
  show ?case
  proof (cases i)
    case 0
    then show ?thesis by simp
  next
    case (Suc j)
    with Cons.prems have "j < length xs" by simp
    from Cons.IH[OF this, of "b @ [x]"] Suc show ?thesis by simp
  qed
qed

lemma applyStacking_nth:
  "i < length ms \<Longrightarrow>
   applyStacking ms ! i = (ms ! i)\<lparr>enabled := stacks (take i ms) (ms ! i) (drop (Suc i) ms)\<rparr>"
  using stack_from_nth[of i ms "[]"] by (simp add: applyStacking_def)

lemma length_applyStacking [simp]: "length (applyStacking ms) = length ms"
  by (simp add: applyStacking_def)

lemma better_irrefl [simp]: "\<not> better k a a"
  by (cases k) simp_all

lemma nth_in_take: "j < i \<Longrightarrow> i \<le> length xs \<Longrightarrow> xs ! j \<in> set (take i xs)"
proof -
  assume "j < i" "i \<le> length xs"
  then have "j < length (take i xs)" "take i xs ! j = xs ! j" by simp_all
  then show ?thesis by (metis nth_mem)
qed

lemma nth_in_drop: "n \<le> j \<Longrightarrow> j < length xs \<Longrightarrow> xs ! j \<in> set (drop n xs)"
proof -
  assume "n \<le> j" "j < length xs"
  then have "j - n < length (drop n xs)" "drop n xs ! (j - n) = xs ! j" by simp_all
  then show ?thesis by (metis nth_mem)
qed

lemma in_take_nth: "x \<in> set (take i xs) \<Longrightarrow> \<exists>j<i. j < length xs \<and> x = xs ! j"
proof -
  assume "x \<in> set (take i xs)"
  then obtain j where "j < length (take i xs)" "take i xs ! j = x"
    by (auto simp: in_set_conv_nth)
  then have "j < i" "j < length xs" "x = xs ! j" by simp_all
  then show ?thesis by blast
qed

lemma enabled_applyStacking_iff:
  assumes "i < length ms"
  shows "enabled (applyStacking ms ! i) \<longleftrightarrow>
     \<not> ignored (ms ! i) \<and>
     (kind (ms ! i) = Untyped \<or>
      ((\<forall>j<length ms. rival (ms ! i) (ms ! j) \<longrightarrow>
           \<not> better (kind (ms ! i)) (numericValue (ms ! j)) (numericValue (ms ! i))) \<and>
       (\<forall>j<i. rival (ms ! i) (ms ! j) \<longrightarrow> numericValue (ms ! j) \<noteq> numericValue (ms ! i))))"
proof -
  let ?m = "ms ! i"
  have A: "list_all (\<lambda>x. \<not> better (kind ?m) (numericValue x) (numericValue ?m))
          (filter (rival ?m) (take i ms @ drop (Suc i) ms))
      \<longleftrightarrow> (\<forall>j<length ms. rival ?m (ms ! j) \<longrightarrow>
           \<not> better (kind ?m) (numericValue (ms ! j)) (numericValue ?m))" (is "?L \<longleftrightarrow> ?R")
  proof
    assume L: ?L
    show ?R
    proof (intro allI impI)
      fix j assume j: "j < length ms" and r: "rival ?m (ms ! j)"
      consider "j < i" | "j = i" | "i < j" by linarith
      then show "\<not> better (kind ?m) (numericValue (ms ! j)) (numericValue ?m)"
      proof cases
        case 1
        then have "ms ! j \<in> set (take i ms)" using assms by (simp add: nth_in_take)
        with L r show ?thesis by (auto simp: list_all_iff)
      next
        case 2
        then show ?thesis by simp
      next
        case 3
        then have "ms ! j \<in> set (drop (Suc i) ms)" using j by (simp add: nth_in_drop)
        with L r show ?thesis by (auto simp: list_all_iff)
      qed
    qed
  next
    assume R: ?R
    show ?L
      unfolding list_all_iff
    proof
      fix x assume "x \<in> set (filter (rival ?m) (take i ms @ drop (Suc i) ms))"
      then have "rival ?m x" and "x \<in> set ms"
        by (auto dest: in_set_takeD in_set_dropD)
      then obtain j where "j < length ms" "ms ! j = x" by (auto simp: in_set_conv_nth)
      with R \<open>rival ?m x\<close> show "\<not> better (kind ?m) (numericValue x) (numericValue ?m)" by auto
    qed
  qed
  have B: "list_all (\<lambda>x. numericValue x \<noteq> numericValue ?m) (filter (rival ?m) (take i ms))
      \<longleftrightarrow> (\<forall>j<i. rival ?m (ms ! j) \<longrightarrow> numericValue (ms ! j) \<noteq> numericValue ?m)"
    using assms by (auto simp: list_all_iff nth_in_take dest!: in_take_nth)
  show ?thesis
    using assms A B by (simp add: applyStacking_nth stacks_def)
qed



lemma rival_trans: "rival m x \<Longrightarrow> rival x y \<longleftrightarrow> rival m y"
  by (auto simp: rival_def)

lemma rival_kind: "rival m x \<Longrightarrow> kind x = kind m"
  by (simp add: rival_def)

lemma winner_exists:
  assumes i: "i < length ms" and ni: "\<not> ignored (ms ! i)" and k: "kind (ms ! i) \<noteq> Untyped"
  shows "\<exists>w<length ms. rival (ms ! i) (ms ! w) \<and> enabled (applyStacking ms ! w)"
proof -
  let ?m = "ms ! i"
  define score where "score j = (if kind ?m = Penalty then - numericValue (ms ! j) else numericValue (ms ! j))" for j
  define G where "G = {j. j < length ms \<and> rival ?m (ms ! j)}"
  have fin: "finite G" by (simp add: G_def)
  have iG: "i \<in> G" using i ni by (simp add: G_def rival_def)
  define M where "M = Max (score ` G)"
  have "M \<in> score ` G" unfolding M_def using fin iG by (intro Max_in) auto
  then obtain j0 where j0: "j0 \<in> G" "score j0 = M" by auto
  define w where "w = (LEAST j. j \<in> G \<and> score j = M)"
  have w: "w \<in> G \<and> score w = M"
    unfolding w_def using j0 by (intro LeastI[of "\<lambda>j. j \<in> G \<and> score j = M" j0]) simp
  have least: "\<not> (j \<in> G \<and> score j = M)" if "j < w" for j
    using that not_less_Least[of j "\<lambda>j. j \<in> G \<and> score j = M"] by (simp add: w_def)
  have le: "score j \<le> score w" if "j \<in> G" for j
    using that fin w by (simp add: M_def)
  have wl: "w < length ms" and wr: "rival ?m (ms ! w)" using w by (simp_all add: G_def)
  have kw: "kind (ms ! w) = kind ?m" using wr by (rule rival_kind)
  have nb: "\<not> better (kind (ms ! w)) (numericValue (ms ! j)) (numericValue (ms ! w))"
    if "j < length ms" "rival (ms ! w) (ms ! j)" for j
  proof -
    from that wr have "j \<in> G" by (simp add: G_def rival_trans)
    from le[OF this] show ?thesis
      unfolding kw by (cases "kind ?m") (simp_all add: score_def)
  qed
  have nt: "numericValue (ms ! j) \<noteq> numericValue (ms ! w)" if "j < w" "rival (ms ! w) (ms ! j)" for j
  proof
    assume eq: "numericValue (ms ! j) = numericValue (ms ! w)"
    from that wr wl have "j \<in> G" by (simp add: G_def rival_trans)
    moreover from eq have "score j = score w" by (simp add: score_def)
    with w have "score j = M" by simp
    ultimately show False using least[OF that(1)] by simp
  qed
  have "enabled (applyStacking ms ! w)"
    using wl wr nb nt by (simp add: enabled_applyStacking_iff) (simp add: rival_def)
  with wl wr show ?thesis by blast
qed

lemma winner_unique:
  assumes w: "w < length ms" "rival m (ms ! w)" "enabled (applyStacking ms ! w)"
    and v: "v < length ms" "rival m (ms ! v)" "enabled (applyStacking ms ! v)"
    and k: "kind m \<noteq> Untyped"
  shows "w = v"
proof -
  have rwv: "rival (ms ! w) (ms ! v)" and rvw: "rival (ms ! v) (ms ! w)"
    using w(2) v(2) by (simp_all add: rival_trans)
  have kw: "kind (ms ! w) = kind m" and kv: "kind (ms ! v) = kind m"
    using w(2) v(2) by (simp_all add: rival_kind)
  from w(1,3) v(1) rwv k kw
  have a1: "\<not> better (kind m) (numericValue (ms ! v)) (numericValue (ms ! w))"
    and a2: "\<forall>j<w. rival (ms ! w) (ms ! j) \<longrightarrow> numericValue (ms ! j) \<noteq> numericValue (ms ! w)"
    by (auto simp: enabled_applyStacking_iff)
  from v(1,3) w(1) rvw k kv
  have b1: "\<not> better (kind m) (numericValue (ms ! w)) (numericValue (ms ! v))"
    and b2: "\<forall>j<v. rival (ms ! v) (ms ! j) \<longrightarrow> numericValue (ms ! j) \<noteq> numericValue (ms ! v)"
    by (auto simp: enabled_applyStacking_iff)
  from a1 b1 k have eq: "numericValue (ms ! w) = numericValue (ms ! v)"
    by (cases "kind m") simp_all
  show ?thesis
  proof (rule ccontr)
    assume "w \<noteq> v"
    then consider (lt) "w < v" | (gt) "v < w" by linarith
    then show False
    proof cases
      case lt
      with b2 rvw eq show False by auto
    next
      case gt
      with a2 rwv eq show False by auto
    qed
  qed
qed

lemma winner_best:
  assumes w: "w < length ms" "rival m (ms ! w)" "enabled (applyStacking ms ! w)"
    and j: "j < length ms" "rival m (ms ! j)"
  shows "(kind m = Bonus \<longrightarrow> numericValue (ms ! j) \<le> numericValue (ms ! w)) \<and>
         (kind m = Penalty \<longrightarrow> numericValue (ms ! w) \<le> numericValue (ms ! j))"
proof -
  have r: "rival (ms ! w) (ms ! j)" using w(2) j(2) by (simp add: rival_trans)
  have kw: "kind (ms ! w) = kind m" using w(2) by (rule rival_kind)
  show ?thesis
  proof (cases "kind m = Untyped")
    case True
    then show ?thesis by simp
  next
    case False
    with w(1,3) j(1) r kw
    have "\<not> better (kind m) (numericValue (ms ! j)) (numericValue (ms ! w))"
      by (auto simp: enabled_applyStacking_iff)
    then show ?thesis by (cases "kind m") auto
  qed
qed



text \<open>
  C5. After the resolver has run on a list, in every group of bonuses or of penalties of one
  subtype that has a member the user does not ignore, exactly one such member is enabled, and
  it is the best of them: no member that is not ignored has a higher value (bonuses) or a
  lower one (penalties). An untyped modifier is enabled exactly when the user does not ignore
  it. The resolver keeps the length of the list and writes no field but \<open>enabled\<close>.
\<close>

theorem one_enabled_per_group:
  "length (applyStacking ms) = length ms
   \<and> (\<forall>i<length ms. applyStacking ms ! i = (ms ! i)\<lparr>enabled := enabled (applyStacking ms ! i)\<rparr>)
   \<and> (\<forall>i<length ms. kind (ms ! i) = Untyped \<longrightarrow>
         enabled (applyStacking ms ! i) = (\<not> ignored (ms ! i)))
   \<and> (\<forall>i<length ms. kind (ms ! i) \<noteq> Untyped \<and> \<not> ignored (ms ! i) \<longrightarrow>
        (\<exists>!w. w < length ms \<and> kind (ms ! w) = kind (ms ! i) \<and> subtype (ms ! w) = subtype (ms ! i)
              \<and> \<not> ignored (ms ! w) \<and> enabled (applyStacking ms ! w))
        \<and> (\<forall>w j. w < length ms \<and> kind (ms ! w) = kind (ms ! i) \<and> subtype (ms ! w) = subtype (ms ! i)
                \<and> \<not> ignored (ms ! w) \<and> enabled (applyStacking ms ! w)
                \<and> j < length ms \<and> kind (ms ! j) = kind (ms ! i) \<and> subtype (ms ! j) = subtype (ms ! i)
                \<and> \<not> ignored (ms ! j)
              \<longrightarrow> (kind (ms ! i) = Bonus \<longrightarrow> numericValue (ms ! j) \<le> numericValue (ms ! w))
                \<and> (kind (ms ! i) = Penalty \<longrightarrow> numericValue (ms ! w) \<le> numericValue (ms ! j))))"
proof (intro conjI allI impI)
  show "length (applyStacking ms) = length ms" by simp
next
  fix i assume "i < length ms"
  then show "applyStacking ms ! i = (ms ! i)\<lparr>enabled := enabled (applyStacking ms ! i)\<rparr>"
    by (simp add: applyStacking_nth)
next
  fix i assume "i < length ms" "kind (ms ! i) = Untyped"
  then show "enabled (applyStacking ms ! i) = (\<not> ignored (ms ! i))"
    by (simp add: enabled_applyStacking_iff)
next
  fix i assume i: "i < length ms" and h: "kind (ms ! i) \<noteq> Untyped \<and> \<not> ignored (ms ! i)"
  from winner_exists[OF i] h obtain w where
    w: "w < length ms" "rival (ms ! i) (ms ! w)" "enabled (applyStacking ms ! w)" by blast
  show "\<exists>!w. w < length ms \<and> kind (ms ! w) = kind (ms ! i) \<and> subtype (ms ! w) = subtype (ms ! i)
              \<and> \<not> ignored (ms ! w) \<and> enabled (applyStacking ms ! w)"
  proof (rule ex1I[of _ w])
    show "w < length ms \<and> kind (ms ! w) = kind (ms ! i) \<and> subtype (ms ! w) = subtype (ms ! i)
              \<and> \<not> ignored (ms ! w) \<and> enabled (applyStacking ms ! w)"
      using w by (simp add: rival_def)
  next
    fix v assume "v < length ms \<and> kind (ms ! v) = kind (ms ! i) \<and> subtype (ms ! v) = subtype (ms ! i)
              \<and> \<not> ignored (ms ! v) \<and> enabled (applyStacking ms ! v)"
    then have v: "v < length ms" "rival (ms ! i) (ms ! v)" "enabled (applyStacking ms ! v)"
      by (simp_all add: rival_def)
    from winner_unique[OF v w] h show "v = w" by simp
  qed
next
  fix i w j
  assume "i < length ms"
    and "w < length ms \<and> kind (ms ! w) = kind (ms ! i) \<and> subtype (ms ! w) = subtype (ms ! i)
                \<and> \<not> ignored (ms ! w) \<and> enabled (applyStacking ms ! w)
                \<and> j < length ms \<and> kind (ms ! j) = kind (ms ! i) \<and> subtype (ms ! j) = subtype (ms ! i)
                \<and> \<not> ignored (ms ! j)"
  then have w: "w < length ms" "rival (ms ! i) (ms ! w)" "enabled (applyStacking ms ! w)"
    and j: "j < length ms" "rival (ms ! i) (ms ! j)"
    by (simp_all add: rival_def)
  from winner_best[OF w j]
  show "kind (ms ! i) = Bonus \<Longrightarrow> numericValue (ms ! j) \<le> numericValue (ms ! w)"
    and "kind (ms ! i) = Penalty \<Longrightarrow> numericValue (ms ! w) \<le> numericValue (ms ! j)"
    by simp_all
qed

theorem one_enabled_per_group_witness:
  "map enabled (applyStacking scenario_DF) = [False, True, True]
   \<and> kind (scenario_DF ! 0) \<noteq> Untyped \<and> \<not> ignored (scenario_DF ! 0)
   \<and> (\<exists>!w. w < length scenario_DF \<and> kind (scenario_DF ! w) = kind (scenario_DF ! 0)
          \<and> subtype (scenario_DF ! w) = subtype (scenario_DF ! 0)
          \<and> \<not> ignored (scenario_DF ! w) \<and> enabled (applyStacking scenario_DF ! w))
   \<and> kind (scenario_DF ! 2) = Untyped
   \<and> enabled (applyStacking scenario_DF ! 2) = (\<not> ignored (scenario_DF ! 2))"
proof -
  have ev: "map enabled (applyStacking scenario_DF) = [False, True, True]"
    by (simp add: scenario_DF_def applyStacking_def stacks_def rival_def mk_def)
  have l: "0 < length scenario_DF" "2 < length scenario_DF" by (simp_all add: scenario_DF_def)
  have h: "kind (scenario_DF ! 0) \<noteq> Untyped \<and> \<not> ignored (scenario_DF ! 0)"
    by (simp add: scenario_DF_def mk_def)
  have u: "kind (scenario_DF ! 2) = Untyped" by (simp add: scenario_DF_def mk_def)
  note inst = one_enabled_per_group[of scenario_DF]
  from inst[THEN conjunct2, THEN conjunct2, THEN conjunct2, rule_format, OF l(1) h, THEN conjunct1]
  have a: "\<exists>!w. w < length scenario_DF \<and> kind (scenario_DF ! w) = kind (scenario_DF ! 0)
          \<and> subtype (scenario_DF ! w) = subtype (scenario_DF ! 0)
          \<and> \<not> ignored (scenario_DF ! w) \<and> enabled (applyStacking scenario_DF ! w)" .
  from inst[THEN conjunct2, THEN conjunct2, THEN conjunct1, rule_format, OF l(2) u]
  have b: "enabled (applyStacking scenario_DF ! 2) = (\<not> ignored (scenario_DF ! 2))" .
  from ev h a u b show ?thesis by blast
qed

section \<open>Properties of the dialog\<close>

lemma set_enabled_apply:
  "set_enabled p h r = (if r = fst p then (h r)\<lparr>enabled := snd p\<rparr> else h r)"
  by (simp add: set_enabled_def)

lemma fold_set_enabled:
  "fold set_enabled ps h r =
     (case map_of (rev ps) r of None \<Rightarrow> h r | Some e \<Rightarrow> (h r)\<lparr>enabled := e\<rparr>)"
proof (induction ps arbitrary: h)
  case Nil
  show ?case by simp
next
  case (Cons p ps)
  have step: "fold set_enabled (p # ps) h r =
      (case map_of (rev ps) r of None \<Rightarrow> set_enabled p h r
       | Some e \<Rightarrow> (set_enabled p h r)\<lparr>enabled := e\<rparr>)"
    using Cons.IH[of "set_enabled p h"] by simp
  have look: "map_of (rev (p # ps)) r =
      (case map_of (rev ps) r of None \<Rightarrow> (if r = fst p then Some (snd p) else None)
       | Some e \<Rightarrow> Some e)"
    by (cases p) (simp add: map_of_append map_add_def split: option.splits)
  show ?case
    unfolding step look by (simp add: set_enabled_apply split: option.splits)
qed

lemma mutate_enabled_cases:
  "mutate_enabled decide rs h r =
     (case map_of (rev (zip rs (decide (map h rs)))) r of
        None \<Rightarrow> h r | Some e \<Rightarrow> (h r)\<lparr>enabled := e\<rparr>)"
  by (simp add: mutate_enabled_def fold_set_enabled)

lemma mutate_enabled_outside: "r \<notin> set rs \<Longrightarrow> mutate_enabled decide rs h r = h r"
proof -
  assume "r \<notin> set rs"
  then have "r \<notin> fst ` set (rev (zip rs (decide (map h rs))))"
    by (auto dest: set_zip_leftD)
  then have "map_of (rev (zip rs (decide (map h rs)))) r = None"
    by (simp add: map_of_eq_None_iff)
  then show ?thesis by (simp add: mutate_enabled_cases)
qed

lemma mutate_enabled_frame:
  "(mutate_enabled decide rs h r)\<lparr>enabled := c\<rparr> = (h r)\<lparr>enabled := c\<rparr>"
  by (simp add: mutate_enabled_cases split: option.splits)

lemma mutate_enabled_category [simp]: "category (mutate_enabled decide rs h r) = category (h r)"
  by (simp add: mutate_enabled_cases split: option.splits)

lemma mutate_enabled_hideIfDisabled [simp]:
  "hideIfDisabled (mutate_enabled decide rs h r) = hideIfDisabled (h r)"
  by (simp add: mutate_enabled_cases split: option.splits)

lemma mutate_enabled_ignored [simp]: "ignored (mutate_enabled decide rs h r) = ignored (h r)"
  by (simp add: mutate_enabled_cases split: option.splits)

lemma persistent_mutate_enabled [simp]:
  "persistent (mutate_enabled decide rs h) = persistent h"
  by (rule ext) (simp add: persistent_def)

lemma mutate_enabled_cong:
  assumes "map h' rs = map h rs" and "h' r = h r"
  shows "mutate_enabled decide rs h' r = mutate_enabled decide rs h r"
  unfolding mutate_enabled_cases assms by (rule refl)

lemma dialog_with_persistent:
  assumes "persistent h r"
  shows "dialog_applyStackingRules_with decide rs h r =
         mutate_enabled decide (filter (persistent h) rs) h r"
proof -
  let ?np = "filter (\<lambda>r. \<not> persistent h r) rs"
  let ?p = "filter (persistent h) rs"
  let ?h1 = "mutate_enabled decide ?np h"
  have out: "?h1 x = h x" if "persistent h x" for x
    using that by (intro mutate_enabled_outside) simp
  have "map ?h1 ?p = map h ?p"
    by (rule map_cong) (simp_all add: out)
  then have "mutate_enabled decide ?p ?h1 r = mutate_enabled decide ?p h r"
    using out[OF assms] by (rule mutate_enabled_cong)
  then show ?thesis
    by (simp add: dialog_applyStackingRules_with_def Let_def)
qed

lemma dialog_with_not_persistent:
  assumes "\<not> persistent h r"
  shows "dialog_applyStackingRules_with decide rs h r =
         mutate_enabled decide (filter (\<lambda>r. \<not> persistent h r) rs) h r"
proof -
  let ?np = "filter (\<lambda>r. \<not> persistent h r) rs"
  let ?p = "filter (persistent h) rs"
  let ?h1 = "mutate_enabled decide ?np h"
  have "mutate_enabled decide ?p ?h1 r = ?h1 r"
    using assms by (intro mutate_enabled_outside) simp
  then show ?thesis
    by (simp add: dialog_applyStackingRules_with_def Let_def)
qed



text \<open>
  C6. \<open>#applyStackingRules\<close> resolves the modifiers whose category is \<open>persistent\<close> and the
  others separately: after it, a persistent modifier is as the resolver leaves it when run on
  the persistent modifiers alone, and a modifier that is not persistent as the resolver
  leaves it when run on the others alone. So two arrays that have the same persistent
  modifiers give the same result for them, whatever their other modifiers are, and the other
  way round. This holds for every resolver that decides from the array it is given and writes
  nothing but \<open>enabled\<close>.
\<close>

theorem partitions_resolved_separately:
  "(\<forall>r. persistent h r \<longrightarrow>
      dialog_applyStackingRules_with decide rs h r =
      mutate_enabled decide (filter (persistent h) rs) h r)
   \<and> (\<forall>r. \<not> persistent h r \<longrightarrow>
      dialog_applyStackingRules_with decide rs h r =
      mutate_enabled decide (filter (\<lambda>r. \<not> persistent h r) rs) h r)
   \<and> (\<forall>rs' h'. filter (persistent h') rs' = filter (persistent h) rs
          \<and> map h' (filter (persistent h) rs) = map h (filter (persistent h) rs)
        \<longrightarrow> map (dialog_applyStackingRules_with decide rs' h') (filter (persistent h) rs) =
            map (dialog_applyStackingRules_with decide rs h) (filter (persistent h) rs))
   \<and> (\<forall>rs' h'. filter (\<lambda>r. \<not> persistent h' r) rs' = filter (\<lambda>r. \<not> persistent h r) rs
          \<and> map h' (filter (\<lambda>r. \<not> persistent h r) rs) = map h (filter (\<lambda>r. \<not> persistent h r) rs)
        \<longrightarrow> map (dialog_applyStackingRules_with decide rs' h') (filter (\<lambda>r. \<not> persistent h r) rs) =
            map (dialog_applyStackingRules_with decide rs h) (filter (\<lambda>r. \<not> persistent h r) rs))"
proof (intro conjI allI impI)
  fix r assume "persistent h r"
  then show "dialog_applyStackingRules_with decide rs h r =
      mutate_enabled decide (filter (persistent h) rs) h r"
    by (rule dialog_with_persistent)
next
  fix r assume "\<not> persistent h r"
  then show "dialog_applyStackingRules_with decide rs h r =
      mutate_enabled decide (filter (\<lambda>r. \<not> persistent h r) rs) h r"
    by (rule dialog_with_not_persistent)
next
  fix rs' h'
  let ?p = "filter (persistent h) rs"
  assume "filter (persistent h') rs' = ?p \<and> map h' ?p = map h ?p"
  then have f: "filter (persistent h') rs' = ?p" and m: "map h' ?p = map h ?p" by simp_all
  show "map (dialog_applyStackingRules_with decide rs' h') ?p =
        map (dialog_applyStackingRules_with decide rs h) ?p"
  proof (rule map_cong[OF refl])
    fix r assume r: "r \<in> set ?p"
    then have ph: "persistent h r" by simp
    from r have "r \<in> set (filter (persistent h') rs')" by (simp only: f)
    then have ph': "persistent h' r" by simp
    from m r have eq: "h' r = h r" by (simp add: map_eq_conv)
    show "dialog_applyStackingRules_with decide rs' h' r = dialog_applyStackingRules_with decide rs h r"
      using mutate_enabled_cong[OF m eq, of decide]
      by (simp add: dialog_with_persistent[OF ph] dialog_with_persistent[OF ph'] f)
  qed
next
  fix rs' h'
  let ?p = "filter (\<lambda>r. \<not> persistent h r) rs"
  assume "filter (\<lambda>r. \<not> persistent h' r) rs' = ?p \<and> map h' ?p = map h ?p"
  then have f: "filter (\<lambda>r. \<not> persistent h' r) rs' = ?p" and m: "map h' ?p = map h ?p" by simp_all
  show "map (dialog_applyStackingRules_with decide rs' h') ?p =
        map (dialog_applyStackingRules_with decide rs h) ?p"
  proof (rule map_cong[OF refl])
    fix r assume r: "r \<in> set ?p"
    then have ph: "\<not> persistent h r" by simp
    from r have "r \<in> set (filter (\<lambda>r. \<not> persistent h' r) rs')" by (simp only: f)
    then have ph': "\<not> persistent h' r" by simp
    from m r have eq: "h' r = h r" by (simp add: map_eq_conv)
    show "dialog_applyStackingRules_with decide rs' h' r = dialog_applyStackingRules_with decide rs h r"
      using mutate_enabled_cong[OF m eq, of decide]
      by (simp add: dialog_with_not_persistent[OF ph] dialog_with_not_persistent[OF ph'] f)
  qed
qed

theorem partitions_resolved_separately_witness:
  "filter (persistent heap_B) [2, 0, 1] = filter (persistent heap_A) [0, 1]
   \<and> map heap_B (filter (persistent heap_A) [0, 1]) = map heap_A (filter (persistent heap_A) [0, 1])
   \<and> filter (persistent heap_A) [0, 1] = [1]
   \<and> map (dialog_applyStackingRules [2, 0, 1] heap_B) [1] = map (dialog_applyStackingRules [0, 1] heap_A) [1]
   \<and> map enabled (map (dialog_applyStackingRules [0, 1] heap_A) [0, 1]) = [True, True]
   \<and> map enabled (map (dialog_applyStackingRules [2, 0, 1] heap_B) [2, 0, 1]) = [True, False, True]"
proof -
  have p: "filter (persistent heap_A) [0, 1] = [1]"
    by (simp add: persistent_def heap_A_def mk_def)
  have f: "filter (persistent heap_B) [2, 0, 1] = filter (persistent heap_A) [0, 1]"
    by (simp add: persistent_def heap_A_def heap_B_def mk_def)
  have m: "map heap_B (filter (persistent heap_A) [0, 1]) = map heap_A (filter (persistent heap_A) [0, 1])"
    unfolding p by (simp add: heap_B_def)
  have prem: "filter (persistent heap_B) [2, 0, 1] = filter (persistent heap_A) [0, 1]
      \<and> map heap_B (filter (persistent heap_A) [0, 1]) = map heap_A (filter (persistent heap_A) [0, 1])"
    using f m by (rule conjI)
  from partitions_resolved_separately[of heap_A stacking_flags "[0, 1]", THEN conjunct2, THEN conjunct2,
      THEN conjunct1, rule_format, OF prem]
  have same: "map (dialog_applyStackingRules [2, 0, 1] heap_B) [1] = map (dialog_applyStackingRules [0, 1] heap_A) [1]"
    unfolding p dialog_applyStackingRules_def .
  have e1: "map enabled (map (dialog_applyStackingRules [0, 1] heap_A) [0, 1]) = [True, True]"
    by (simp add: dialog_applyStackingRules_def dialog_applyStackingRules_with_def mutate_enabled_def
        stacking_flags_def applyStacking_def stacks_def rival_def set_enabled_def persistent_def
        heap_A_def mk_def Let_def)
  have e2: "map enabled (map (dialog_applyStackingRules [2, 0, 1] heap_B) [2, 0, 1]) = [True, False, True]"
    by (simp add: dialog_applyStackingRules_def dialog_applyStackingRules_with_def mutate_enabled_def
        stacking_flags_def applyStacking_def stacks_def rival_def set_enabled_def persistent_def
        heap_A_def heap_B_def mk_def Let_def)
  from f m p same e1 e2 show ?thesis by blast
qed

lemma rival_enabled [simp]:
  "rival (m\<lparr>enabled := c\<rparr>) x = rival m x"
  "rival m (x\<lparr>enabled := c\<rparr>) = rival m x"
  by (simp_all add: rival_def)

lemma stacks_forget:
  "stacks (map (\<lambda>m. m\<lparr>enabled := False\<rparr>) b) (m\<lparr>enabled := False\<rparr>) (map (\<lambda>m. m\<lparr>enabled := False\<rparr>) a)
     = stacks b m a"
  by (simp add: stacks_def filter_map list.pred_map comp_def flip: map_append)

lemma stack_from_forget:
  "map enabled (stack_from (map (\<lambda>m. m\<lparr>enabled := False\<rparr>) b) (map (\<lambda>m. m\<lparr>enabled := False\<rparr>) xs))
     = map enabled (stack_from b xs)"
proof (induction xs arbitrary: b)
  case Nil
  show ?case by simp
next
  case (Cons x xs)
  from Cons.IH[of "b @ [x]"] show ?case
    by (simp add: stacks_forget)
qed

lemma stacking_flags_forget:
  "stacking_flags (map (\<lambda>m. m\<lparr>enabled := False\<rparr>) ms) = stacking_flags ms"
  using stack_from_forget[of "[]" ms] by (simp add: stacking_flags_def applyStacking_def)

lemma stacking_flags_cong:
  assumes "map (\<lambda>m. m\<lparr>enabled := False\<rparr>) ms' = map (\<lambda>m. m\<lparr>enabled := False\<rparr>) ms"
  shows "stacking_flags ms' = stacking_flags ms"
  using stacking_flags_forget[of ms'] stacking_flags_forget[of ms] assms by simp

lemma forget_applyStacking:
  "map (\<lambda>m. m\<lparr>enabled := False\<rparr>) (applyStacking ms) = map (\<lambda>m. m\<lparr>enabled := False\<rparr>) ms"
  by (rule nth_equalityI) (simp_all add: applyStacking_nth)

lemma applyStacking_idem: "applyStacking (applyStacking ms) = applyStacking ms"
proof (rule nth_equalityI)
  show "length (applyStacking (applyStacking ms)) = length (applyStacking ms)" by simp
next
  fix i assume "i < length (applyStacking (applyStacking ms))"
  then have i: "i < length ms" by simp
  have fl: "stacking_flags (applyStacking ms) = stacking_flags ms"
    by (rule stacking_flags_cong) (rule forget_applyStacking)
  have "enabled (applyStacking (applyStacking ms) ! i) = stacking_flags (applyStacking ms) ! i"
    using i by (simp add: stacking_flags_def)
  also have "\<dots> = enabled (applyStacking ms ! i)"
    using i by (simp add: fl) (simp add: stacking_flags_def)
  finally have e: "enabled (applyStacking (applyStacking ms) ! i) = enabled (applyStacking ms ! i)" .
  have "applyStacking (applyStacking ms) ! i
      = (applyStacking ms ! i)\<lparr>enabled := enabled (applyStacking (applyStacking ms) ! i)\<rparr>"
    using i applyStacking_nth[of i "applyStacking ms"] by simp
  then show "applyStacking (applyStacking ms) ! i = applyStacking ms ! i"
    by (simp add: e)
qed

lemma mutate_stacking_idem:
  "mutate_enabled stacking_flags rs (mutate_enabled stacking_flags rs h) = mutate_enabled stacking_flags rs h"
proof (rule ext)
  fix r
  let ?h1 = "mutate_enabled stacking_flags rs h"
  have "map (\<lambda>m. m\<lparr>enabled := False\<rparr>) (map ?h1 rs) = map (\<lambda>m. m\<lparr>enabled := False\<rparr>) (map h rs)"
    by (simp add: mutate_enabled_frame)
  then have fl: "stacking_flags (map ?h1 rs) = stacking_flags (map h rs)"
    by (rule stacking_flags_cong)
  show "mutate_enabled stacking_flags rs ?h1 r = ?h1 r"
    unfolding mutate_enabled_cases[of stacking_flags rs ?h1 r] fl
    by (simp add: mutate_enabled_cases[of stacking_flags rs h r] split: option.splits)
qed

lemma persistent_dialog_with [simp]:
  "persistent (dialog_applyStackingRules_with decide rs h) = persistent h"
  by (simp add: dialog_applyStackingRules_with_def Let_def)

lemma dialog_stacking_idem:
  "dialog_applyStackingRules rs (dialog_applyStackingRules rs h) = dialog_applyStackingRules rs h"
proof (rule ext)
  fix r
  let ?D = "dialog_applyStackingRules_with stacking_flags rs h"
  show "dialog_applyStackingRules rs (dialog_applyStackingRules rs h) r = dialog_applyStackingRules rs h r"
  proof (cases "persistent h r")
    case True
    let ?p = "filter (persistent h) rs"
    have m: "map ?D ?p = map (mutate_enabled stacking_flags ?p h) ?p"
      by (rule map_cong[OF refl]) (simp add: dialog_with_persistent)
    have e: "?D r = mutate_enabled stacking_flags ?p h r"
      using True by (rule dialog_with_persistent)
    have "dialog_applyStackingRules_with stacking_flags rs ?D r = mutate_enabled stacking_flags ?p ?D r"
      using True dialog_with_persistent[of ?D r stacking_flags rs] by simp
    also have "\<dots> = mutate_enabled stacking_flags ?p (mutate_enabled stacking_flags ?p h) r"
      using m e by (rule mutate_enabled_cong)
    also have "\<dots> = ?D r" by (simp add: mutate_stacking_idem e)
    finally show ?thesis by (simp add: dialog_applyStackingRules_def)
  next
    case False
    let ?p = "filter (\<lambda>r. \<not> persistent h r) rs"
    have m: "map ?D ?p = map (mutate_enabled stacking_flags ?p h) ?p"
      by (rule map_cong[OF refl]) (simp add: dialog_with_not_persistent)
    have e: "?D r = mutate_enabled stacking_flags ?p h r"
      using False by (rule dialog_with_not_persistent)
    have "dialog_applyStackingRules_with stacking_flags rs ?D r = mutate_enabled stacking_flags ?p ?D r"
      using False dialog_with_not_persistent[of ?D r stacking_flags rs] by simp
    also have "\<dots> = mutate_enabled stacking_flags ?p (mutate_enabled stacking_flags ?p h) r"
      using m e by (rule mutate_enabled_cong)
    also have "\<dots> = ?D r" by (simp add: mutate_stacking_idem e)
    finally show ?thesis by (simp add: dialog_applyStackingRules_def)
  qed
qed

text \<open>
  C8. The stacking resolver is idempotent: run on its own result it returns that result, so
  every modifier keeps the \<open>enabled\<close> flag of the first run. This holds for the resolver on a
  list, for the resolver writing to the objects of an array, and for \<open>#applyStackingRules\<close> of
  the dialog.
\<close>

theorem stacking_idempotent:
  "applyStacking (applyStacking ms) = applyStacking ms
   \<and> map enabled (applyStacking (applyStacking ms)) = map enabled (applyStacking ms)
   \<and> applyStackingRules rs (applyStackingRules rs h) = applyStackingRules rs h
   \<and> dialog_applyStackingRules rs (dialog_applyStackingRules rs h) = dialog_applyStackingRules rs h"
  by (simp add: applyStacking_idem applyStackingRules_def mutate_stacking_idem dialog_stacking_idem)

theorem stacking_idempotent_witness:
  "map enabled (applyStacking scenario_DF) = [False, True, True]
   \<and> map enabled (applyStacking (applyStacking scenario_DF)) = [False, True, True]"
proof -
  have ev: "map enabled (applyStacking scenario_DF) = [False, True, True]"
    by (simp add: scenario_DF_def applyStacking_def stacks_def rival_def mk_def)
  from stacking_idempotent[of scenario_DF, THEN conjunct2, THEN conjunct1] ev
  show ?thesis by simp
qed

lemma ignored_disabled:
  "i < length ms \<Longrightarrow> ignored (ms ! i) \<Longrightarrow> \<not> enabled (applyStacking ms ! i)"
  by (simp add: enabled_applyStacking_iff)

lemma filter_rival_not_ignored:
  "filter (rival m) (filter (\<lambda>x. \<not> ignored x) xs) = filter (rival m) xs"
  by (induction xs) (auto simp: rival_def)

lemma stacks_not_ignored:
  "stacks (filter (\<lambda>x. \<not> ignored x) b) m (filter (\<lambda>x. \<not> ignored x) a) = stacks b m a"
  using filter_rival_not_ignored[of m "b @ a"] filter_rival_not_ignored[of m b]
  by (simp add: stacks_def)

lemma filter_stack_from:
  "filter (\<lambda>x. \<not> ignored x) (stack_from b xs) =
   stack_from (filter (\<lambda>x. \<not> ignored x) b) (filter (\<lambda>x. \<not> ignored x) xs)"
proof (induction xs arbitrary: b)
  case Nil
  show ?case by simp
next
  case (Cons x xs)
  from Cons.IH[of "b @ [x]"] show ?case
    by (simp add: stacks_not_ignored)
qed

lemma other_member_wins:
  assumes i: "i < length ms" and j: "j < length ms" "\<not> ignored (ms ! j)"
    and g: "kind (ms ! j) = kind (ms ! i)" "subtype (ms ! j) = subtype (ms ! i)"
  shows "\<exists>w<length ms. \<not> ignored (ms ! w) \<and> kind (ms ! w) = kind (ms ! i)
           \<and> subtype (ms ! w) = subtype (ms ! i) \<and> enabled (applyStacking ms ! w)"
proof (cases "kind (ms ! j) = Untyped")
  case True
  with j have "enabled (applyStacking ms ! j)" by (simp add: enabled_applyStacking_iff)
  with j g show ?thesis by blast
next
  case False
  from winner_exists[OF j(1) j(2) False] obtain w where
    "w < length ms" "rival (ms ! j) (ms ! w)" "enabled (applyStacking ms ! w)" by blast
  with g show ?thesis by (auto simp: rival_def)
qed

lemma mutate_stacking_ignored:
  assumes r: "r \<in> set xs" and ig: "ignored (h r)"
  shows "\<not> enabled (mutate_enabled stacking_flags xs h r)"
proof -
  let ?fl = "stacking_flags (map h xs)"
  let ?ps = "zip xs ?fl"
  have len: "length ?fl = length xs" by (simp add: stacking_flags_def)
  have "r \<in> fst ` set (rev ?ps)" using r len by (simp add: map_fst_zip flip: set_map)
  then obtain e where e: "map_of (rev ?ps) r = Some e"
    by (metis map_of_eq_None_iff not_Some_eq)
  then have "(r, e) \<in> set ?ps" by (auto dest: map_of_SomeD)
  then obtain k where k: "k < length xs" "xs ! k = r" "?fl ! k = e"
    using len by (auto simp: in_set_zip)
  have "\<not> enabled (applyStacking (map h xs) ! k)"
    using k ig by (intro ignored_disabled) simp_all
  with k have "\<not> e" by (simp add: stacking_flags_def)
  with e show ?thesis by (simp add: mutate_enabled_cases)
qed

lemma ignored_dialog_with [simp]:
  "ignored (dialog_applyStackingRules_with decide rs h r) = ignored (h r)"
  by (simp add: dialog_applyStackingRules_with_def Let_def)

lemma dialog_stacking_ignored:
  assumes r: "r \<in> set rs" and ig: "ignored (h r)"
  shows "\<not> enabled (dialog_applyStackingRules rs h r)"
proof (cases "persistent h r")
  case True
  with r have "r \<in> set (filter (persistent h) rs)" by simp
  from mutate_stacking_ignored[where h = h, OF this ig] show ?thesis
    by (simp add: dialog_applyStackingRules_def dialog_with_persistent[OF True])
next
  case False
  with r have "r \<in> set (filter (\<lambda>r. \<not> persistent h r) rs)" by simp
  from mutate_stacking_ignored[where h = h, OF this ig] show ?thesis
    by (simp add: dialog_applyStackingRules_def dialog_with_not_persistent[OF False])
qed

lemma click_unchecked:
  assumes "0 \<le> i" "i < int (length (formulaData_modifiers d))"
  shows "\<exists>d'. clickModifierCheckbox (Num i) False d = Inr d'
           \<and> ignored (store d' (formulaData_modifiers d ! nat i))
           \<and> \<not> enabled (store d' (formulaData_modifiers d ! nat i))"
proof -
  let ?rs = "formulaData_modifiers d"
  let ?r = "?rs ! nat i"
  let ?h = "(store d)(?r := (store d ?r)\<lparr>ignored := True\<rparr>)"
  have r: "?r \<in> set ?rs" using assms by simp
  have ig: "ignored (?h ?r)" by simp
  have run: "clickModifierCheckbox (Num i) False d = Inr (d\<lparr>store := dialog_applyStackingRules ?rs ?h\<rparr>)"
    using assms by (simp add: clickModifierCheckbox_def Let_def)
  have "ignored (dialog_applyStackingRules ?rs ?h ?r)"
    using ig by (simp add: dialog_applyStackingRules_def)
  moreover have "\<not> enabled (dialog_applyStackingRules ?rs ?h ?r)"
    using r ig by (rule dialog_stacking_ignored)
  ultimately show ?thesis using run by simp
qed

text \<open>
  C7. A modifier the user ignores is never enabled by the resolver, whatever its value. It
  takes no part in the selection: the modifiers that are not ignored come out as if the
  ignored ones were not in the list. So when its group has a member that is not ignored,
  such a member is the one enabled. In the dialog, unchecking the checkbox of a modifier
  sets \<open>ignored\<close> and runs the resolver, after which the modifier is ignored and disabled.
\<close>

theorem ignored_modifier_never_wins:
  "(\<forall>i<length ms. ignored (ms ! i) \<longrightarrow> \<not> enabled (applyStacking ms ! i))
   \<and> filter (\<lambda>m. \<not> ignored m) (applyStacking ms) = applyStacking (filter (\<lambda>m. \<not> ignored m) ms)
   \<and> (\<forall>i j. i < length ms \<and> ignored (ms ! i) \<and> j < length ms \<and> \<not> ignored (ms ! j)
          \<and> kind (ms ! j) = kind (ms ! i) \<and> subtype (ms ! j) = subtype (ms ! i)
        \<longrightarrow> (\<exists>w<length ms. \<not> ignored (ms ! w) \<and> kind (ms ! w) = kind (ms ! i)
               \<and> subtype (ms ! w) = subtype (ms ! i) \<and> enabled (applyStacking ms ! w)))
   \<and> (\<forall>d i. 0 \<le> i \<and> i < int (length (formulaData_modifiers d))
        \<longrightarrow> (\<exists>d'. clickModifierCheckbox (Num i) False d = Inr d'
               \<and> ignored (store d' (formulaData_modifiers d ! nat i))
               \<and> \<not> enabled (store d' (formulaData_modifiers d ! nat i))))"
proof (intro conjI allI impI)
  fix i assume "i < length ms" "ignored (ms ! i)"
  then show "\<not> enabled (applyStacking ms ! i)" by (rule ignored_disabled)
next
  show "filter (\<lambda>m. \<not> ignored m) (applyStacking ms) = applyStacking (filter (\<lambda>m. \<not> ignored m) ms)"
    using filter_stack_from[of "[]" ms] by (simp add: applyStacking_def)
next
  fix i j
  assume "i < length ms \<and> ignored (ms ! i) \<and> j < length ms \<and> \<not> ignored (ms ! j)
          \<and> kind (ms ! j) = kind (ms ! i) \<and> subtype (ms ! j) = subtype (ms ! i)"
  then show "\<exists>w<length ms. \<not> ignored (ms ! w) \<and> kind (ms ! w) = kind (ms ! i)
               \<and> subtype (ms ! w) = subtype (ms ! i) \<and> enabled (applyStacking ms ! w)"
    using other_member_wins[of i ms j] by blast
next
  fix d :: DamageModifierDialog and i
  assume "0 \<le> i \<and> i < int (length (formulaData_modifiers d))"
  then show "\<exists>d'. clickModifierCheckbox (Num i) False d = Inr d'
               \<and> ignored (store d' (formulaData_modifiers d ! nat i))
               \<and> \<not> enabled (store d' (formulaData_modifiers d ! nat i))"
    using click_unchecked[of i d] by blast
qed

theorem ignored_modifier_never_wins_witness:
  "0 < length scenario_E \<and> ignored (scenario_E ! 0)
   \<and> numericValue (scenario_E ! 1) < numericValue (scenario_E ! 0)
   \<and> \<not> enabled (applyStacking scenario_E ! 0)
   \<and> map enabled (applyStacking scenario_E) = [False, True]
   \<and> (\<exists>w<length scenario_E. \<not> ignored (scenario_E ! w) \<and> kind (scenario_E ! w) = kind (scenario_E ! 0)
         \<and> subtype (scenario_E ! w) = subtype (scenario_E ! 0) \<and> enabled (applyStacking scenario_E ! w))
   \<and> enabled (heap_A 0)
   \<and> (\<exists>d'. clickModifierCheckbox (Num 0) False (DamageModifierDialog_new heap_A [0, 1] ''success'') = Inr d'
         \<and> ignored (store d' 0) \<and> \<not> enabled (store d' 0))"
proof -
  have l: "0 < length scenario_E" and ig: "ignored (scenario_E ! 0)"
    and lt: "numericValue (scenario_E ! 1) < numericValue (scenario_E ! 0)"
    by (simp_all add: scenario_E_def mk_def)
  have h: "0 < length scenario_E \<and> ignored (scenario_E ! 0) \<and> 1 < length scenario_E
      \<and> \<not> ignored (scenario_E ! 1) \<and> kind (scenario_E ! 1) = kind (scenario_E ! 0)
      \<and> subtype (scenario_E ! 1) = subtype (scenario_E ! 0)"
    by (simp add: scenario_E_def mk_def)
  have ev: "map enabled (applyStacking scenario_E) = [False, True]"
    by (simp add: scenario_E_def applyStacking_def stacks_def rival_def mk_def)
  note inst = ignored_modifier_never_wins[of scenario_E]
  from inst[THEN conjunct1, rule_format, OF l ig]
  have a: "\<not> enabled (applyStacking scenario_E ! 0)" .
  from inst[THEN conjunct2, THEN conjunct2, THEN conjunct1, rule_format, OF h]
  have b: "\<exists>w<length scenario_E. \<not> ignored (scenario_E ! w) \<and> kind (scenario_E ! w) = kind (scenario_E ! 0)
         \<and> subtype (scenario_E ! w) = subtype (scenario_E ! 0) \<and> enabled (applyStacking scenario_E ! w)" .
  have en: "enabled (heap_A 0)" by (simp add: heap_A_def)
  have hd: "(0::int) \<le> 0 \<and> 0 < int (length (formulaData_modifiers (DamageModifierDialog_new heap_A [0, 1] ''success'')))"
    by (simp add: DamageModifierDialog_new_def)
  from inst[THEN conjunct2, THEN conjunct2, THEN conjunct2, rule_format, OF hd]
  have c: "\<exists>d'. clickModifierCheckbox (Num 0) False (DamageModifierDialog_new heap_A [0, 1] ''success'') = Inr d'
         \<and> ignored (store d' 0) \<and> \<not> enabled (store d' 0)"
    by (simp add: DamageModifierDialog_new_def)
  from l ig lt a ev b en c show ?thesis by blast
qed

lemma fold_max_ge: "a \<le> fold max rs a \<and> (\<forall>x\<in>set rs. x \<le> fold max rs (a::nat))"
proof (induction rs arbitrary: a)
  case Nil
  show ?case by simp
next
  case (Cons r rs)
  from Cons.IH[of "max r a"] show ?case by auto
qed

lemma fresh_ref_notin: "fresh_ref rs \<notin> set rs"
  using fold_max_ge[of 0 rs] by (auto simp: fresh_ref_def)

lemma hideIfDisabled_dialog_with [simp]:
  "hideIfDisabled (dialog_applyStackingRules_with decide rs h r) = hideIfDisabled (h r)"
  by (simp add: dialog_applyStackingRules_with_def Let_def)

lemma after_event_originallyEnabled [simp]:
  "originallyEnabled (after_event e d) = originallyEnabled d"
  by (cases e)
    (auto simp: after_event_def clickModifierCheckbox_def addModifier_def Let_def
      split: number.splits sum.splits if_splits)

lemma after_event_modifiers:
  "formulaData_modifiers (after_event e d) = formulaData_modifiers d \<or>
   formulaData_modifiers (after_event e d) = formulaData_modifiers d @ [fresh_ref (formulaData_modifiers d)]"
  by (cases e)
    (auto simp: after_event_def clickModifierCheckbox_def addModifier_def Let_def
      split: number.splits sum.splits if_splits)

lemma after_event_hideIfDisabled:
  "r \<in> set (formulaData_modifiers d) \<Longrightarrow>
   hideIfDisabled (store (after_event e d) r) = hideIfDisabled (store d r)"
  using fresh_ref_notin[of "formulaData_modifiers d"]
  by (cases e)
    (auto simp: after_event_def clickModifierCheckbox_def addModifier_def Let_def
      dialog_applyStackingRules_def
      split: number.splits sum.splits if_splits)

lemma run_originallyEnabled [simp]: "originallyEnabled (run evs d) = originallyEnabled d"
  unfolding run_def by (induction evs arbitrary: d) simp_all

lemma run_modifiers:
  "\<exists>ex. formulaData_modifiers (run evs d) = formulaData_modifiers d @ ex
        \<and> set ex \<inter> set (formulaData_modifiers d) = {}"
  unfolding run_def
proof (induction evs arbitrary: d)
  case Nil
  show ?case by simp
next
  case (Cons e evs)
  obtain a where a: "formulaData_modifiers (after_event e d) = formulaData_modifiers d @ a"
    and da: "set a \<inter> set (formulaData_modifiers d) = {}"
    using after_event_modifiers[of e d] fresh_ref_notin[of "formulaData_modifiers d"] by auto
  from Cons.IH[of "after_event e d"] obtain ex where
    ex: "formulaData_modifiers (fold after_event evs (after_event e d)) = formulaData_modifiers (after_event e d) @ ex"
    and dex: "set ex \<inter> set (formulaData_modifiers (after_event e d)) = {}" by blast
  have "formulaData_modifiers (fold after_event (e # evs) d) = formulaData_modifiers d @ (a @ ex)"
    using ex a by simp
  moreover have "set (a @ ex) \<inter> set (formulaData_modifiers d) = {}"
    using da dex a by auto
  ultimately show ?case by blast
qed

lemma run_hideIfDisabled:
  "r \<in> set (formulaData_modifiers d) \<Longrightarrow>
   hideIfDisabled (store (run evs d) r) = hideIfDisabled (store d r)"
  unfolding run_def
proof (induction evs arbitrary: d)
  case Nil
  show ?case by simp
next
  case (Cons e evs)
  from Cons.prems after_event_modifiers[of e d]
  have "r \<in> set (formulaData_modifiers (after_event e d))" by auto
  from Cons.IH[OF this] after_event_hideIfDisabled[OF Cons.prems, of e]
  show ?case by simp
qed

lemma getData_hideIfDisabled:
  "k < length (formulaData_modifiers d) \<Longrightarrow>
   data_hideIfDisabled (getData d ! k) =
     (formulaData_modifiers d ! k \<notin> originallyEnabled d \<and>
      hideIfDisabled (store d (formulaData_modifiers d ! k)))"
  by (simp add: getData_def Let_def)

text \<open>
  C9. Let the dialog be constructed on some modifiers and let any sequence of clicks on
  modifier checkboxes and on the button that adds a modifier follow. Then \<open>getData\<close> reports
  \<open>hideIfDisabled = false\<close> for every modifier that was enabled when the dialog was
  constructed, whether or not it is still enabled, and for every other modifier, also one
  added later, it reports the modifier's own \<open>hideIfDisabled\<close> flag. The modifiers given at
  construction keep their places in the array and their flag.
\<close>

theorem originally_enabled_stays_visible:
  assumes d: "d = run evs (DamageModifierDialog_new h rs outcome)"
  shows "length (getData d) = length (formulaData_modifiers d)
    \<and> take (length rs) (formulaData_modifiers d) = rs
    \<and> (\<forall>k<length rs. enabled (h (rs ! k)) \<longrightarrow> data_hideIfDisabled (getData d ! k) = False)
    \<and> (\<forall>k<length rs. \<not> enabled (h (rs ! k)) \<longrightarrow>
          data_hideIfDisabled (getData d ! k) = hideIfDisabled (store d (rs ! k))
          \<and> hideIfDisabled (store d (rs ! k)) = hideIfDisabled (h (rs ! k)))
    \<and> (\<forall>k<length (formulaData_modifiers d). length rs \<le> k \<longrightarrow>
          data_hideIfDisabled (getData d ! k) =
          hideIfDisabled (store d (formulaData_modifiers d ! k)))"
proof -
  let ?d0 = "DamageModifierDialog_new h rs outcome"
  have oe: "originallyEnabled d = {r \<in> set rs. enabled (h r)}"
    by (auto simp: d DamageModifierDialog_new_def)
  from run_modifiers[of evs ?d0] obtain ex where
    ms: "formulaData_modifiers d = rs @ ex" and dj: "set ex \<inter> set rs = {}"
    by (auto simp: d DamageModifierDialog_new_def)
  have nth_old: "formulaData_modifiers d ! k = rs ! k" if "k < length rs" for k
    using that by (simp add: ms nth_append)
  have nth_new: "formulaData_modifiers d ! k \<notin> set rs" if "length rs \<le> k" "k < length (formulaData_modifiers d)" for k
  proof -
    from that have "formulaData_modifiers d ! k = ex ! (k - length rs)" "k - length rs < length ex"
      by (simp_all add: ms nth_append)
    then have "formulaData_modifiers d ! k \<in> set ex" by simp
    with dj show ?thesis by auto
  qed
  have hid: "hideIfDisabled (store d r) = hideIfDisabled (h r)" if "r \<in> set rs" for r
    using run_hideIfDisabled[of r ?d0 evs] that by (simp add: d DamageModifierDialog_new_def)
  show ?thesis
  proof (intro conjI allI impI)
    show "length (getData d) = length (formulaData_modifiers d)" by (simp add: getData_def)
    show "take (length rs) (formulaData_modifiers d) = rs" by (simp add: ms)
  next
    fix k assume k: "k < length rs" and en: "enabled (h (rs ! k))"
    then have "rs ! k \<in> originallyEnabled d" by (simp add: oe)
    with k show "data_hideIfDisabled (getData d ! k) = False"
      by (simp add: getData_hideIfDisabled ms nth_append)
  next
    fix k assume k: "k < length rs" and en: "\<not> enabled (h (rs ! k))"
    then have "rs ! k \<notin> originallyEnabled d" by (simp add: oe)
    with k show "data_hideIfDisabled (getData d ! k) = hideIfDisabled (store d (rs ! k))"
      by (simp add: getData_hideIfDisabled ms nth_append)
    from k show "hideIfDisabled (store d (rs ! k)) = hideIfDisabled (h (rs ! k))"
      by (simp add: hid)
  next
    fix k assume k: "k < length (formulaData_modifiers d)" and n: "length rs \<le> k"
    from nth_new[OF n k] have "formulaData_modifiers d ! k \<notin> originallyEnabled d" by (simp add: oe)
    with k show "data_hideIfDisabled (getData d ! k) =
          hideIfDisabled (store d (formulaData_modifiers d ! k))"
      by (simp add: getData_hideIfDisabled)
  qed
qed



theorem originally_enabled_stays_visible_witness:
  "enabled (heap_C 0) \<and> \<not> enabled (heap_C 1)
   \<and> formulaData_modifiers (run events_C (DamageModifierDialog_new heap_C [0, 1] ''success'')) = [0, 1, 2]
   \<and> map data_enabled (getData (run events_C (DamageModifierDialog_new heap_C [0, 1] ''success'')))
       = [False, False, True]
   \<and> map data_hideIfDisabled (getData (run events_C (DamageModifierDialog_new heap_C [0, 1] ''success'')))
       = [False, True, True]
   \<and> data_hideIfDisabled (getData (run events_C (DamageModifierDialog_new heap_C [0, 1] ''success'')) ! 0)
       = False
   \<and> data_hideIfDisabled (getData (run events_C (DamageModifierDialog_new heap_C [0, 1] ''success'')) ! 1)
       = hideIfDisabled (heap_C 1)"
proof -
  let ?d = "run events_C (DamageModifierDialog_new heap_C [0, 1] ''success'')"
  have e: "enabled (heap_C 0)" "\<not> enabled (heap_C 1)" by (simp_all add: heap_C_def mk_def)
  have ms: "formulaData_modifiers ?d = [0, 1, 2]"
    by code_simp
  have en: "map data_enabled (getData ?d) = [False, False, True]"
    by code_simp
  have hi: "map data_hideIfDisabled (getData ?d) = [False, True, True]"
    by code_simp
  note inst = originally_enabled_stays_visible[OF refl, of events_C heap_C "[0, 1]" "''success''"]
  from inst[THEN conjunct2, THEN conjunct2, THEN conjunct1, rule_format, of 0] e
  have a: "data_hideIfDisabled (getData ?d ! 0) = False" by simp
  from inst[THEN conjunct2, THEN conjunct2, THEN conjunct2, THEN conjunct1, rule_format, of 1] e
  have b: "data_hideIfDisabled (getData ?d ! 1) = hideIfDisabled (heap_C 1)" by simp
  from e ms en hi a b show ?thesis by blast
qed

end
